theory Spec2Isabelle
  imports Complex_Main "HOL-Library.Word"
begin

section \<open>Blackjack reward distributions: the solver and the Kelly bettor\<close>

text \<open>
  A shallow embedding of \<^verbatim>\<open>bbwrl/bot/reward_distribution.pyx\<close> (class
  \<^verbatim>\<open>RewardDistribution\<close> and the distribution helpers) and of
  \<^verbatim>\<open>bbwrl/bot/bettors/kelly_bettor.pyx\<close> (\<^verbatim>\<open>KellyBettor.get_distr\<close> and
  its helpers).

  Conventions of the embedding.
  \<^item> A \<^verbatim>\<open>double[17]\<close> payout distribution is a \<^typ>\<open>real list\<close>; C doubles are
    modelled by exact reals, so rounding is not part of the model. The one partial
    operation of the source is the quotient by the number of cards left (compiled
    with \<^verbatim>\<open>cdivision(True)\<close>): for an empty divisor C yields NaN for \<^verbatim>\<open>0/0\<close>, and
    the test \<^verbatim>\<open>p > 0\<close> is then false; in HOL \<open>0 / 0 = 0\<close>, which fails the same test.
    The two agree on every branch taken, not on the quotient itself: where the
    source computes NaN the model's number does not describe it. This concerns the
    value of \<^verbatim>\<open>card_probability\<close> at a zero divisor and, through it, the vector
    that \<^verbatim>\<open>distr_blackjack\<close> (which does not test \<^verbatim>\<open>p > 0\<close>) builds on a shoe with no
    card left. The properties below that speak of such a quotient assume a
    non-zero divisor.
  \<^item> The shoe \<^verbatim>\<open>int card_distr[14]\<close> is an \<^typ>\<open>int list\<close> read at the indices
    \<open>1..13\<close>; a card is a \<^typ>\<open>nat\<close> index taken from \<^verbatim>\<open>range(1, 14)\<close>.
  \<^item> The solver object is a record threaded through every method; a method returns
    its result together with the solver after the call.
  \<^item> The cache \<^verbatim>\<open>unordered_map[int128, double*]\<close> is a map from 128-bit words to
    distributions. Cached arrays are never written after they are stored, so a
    returned pointer is modelled by the value it points to.
  \<^item> The module \<^verbatim>\<open>bbwrl.environments.rule_variation\<close> is a record passed as the
    parameter \<open>rv\<close>.
\<close>

subsection \<open>Card values\<close>

text \<open>\<^verbatim>\<open>get_value\<close> is defined identically in both modules.\<close>

definition get_value :: "nat \<Rightarrow> int" where
  "get_value crd = (if crd = 1 then 11 else if crd < 10 then int crd else 10)"

text \<open>\<^verbatim>\<open>reward_distribution.is_ace\<close> tests a card value.\<close>

definition is_ace :: "int \<Rightarrow> int" where
  "is_ace card_value = (if card_value = 11 then 1 else 0)"

text \<open>\<^verbatim>\<open>kelly_bettor.is_ace\<close> tests a card.\<close>

definition bettor_is_ace :: "nat \<Rightarrow> int" where
  "bettor_is_ace crd = (if crd = 1 then 1 else 0)"

subsection \<open>Distribution algebra\<close>

definition add :: "real list \<Rightarrow> real list \<Rightarrow> real \<Rightarrow> real list" where
  "add distr1 distr2 scalar = map (\<lambda>i. distr1 ! i + scalar * distr2 ! i) [0..<17]"

definition empty_distr :: "real list" where
  "empty_distr = replicate 17 0"

text \<open>\<^verbatim>\<open>distr[int(value*2+8)] = 1.0\<close>; the four values used give an index in \<open>0..16\<close>.\<close>

definition constant_distr :: "real \<Rightarrow> real list" where
  "constant_distr v = empty_distr[nat \<lfloor>v * 2 + 8\<rfloor> := 1]"

definition double_distr :: "real list \<Rightarrow> real list" where
  "double_distr distr =
     fold (\<lambda>i tmp. tmp[2 * i - 8 := distr ! i]) [4..<13] (replicate 17 0)"

definition double_variable :: "real list \<Rightarrow> real list" where
  "double_variable distr =
     fold (\<lambda>i tmp.
        fold (\<lambda>j tmp.
           if i + j < 25 \<and> i + j \<ge> 8
           then tmp[i + j - 8 := tmp ! (i + j - 8) + distr ! i * distr ! j]
           else tmp)
          [0..<17] tmp)
       [0..<17] (replicate 17 0)"

subsection \<open>Rule configuration and the solver object\<close>

record rule_variation =
  HIT_SOFT_17 :: bool
  DEALER_PEEKS :: bool
  DOUBLE_AFTER_SPLIT :: bool
  HIT_AFTER_SPLIT_ACES :: bool
  BLACKJACK_WITH_SPLIT_ACES :: bool
  SPLIT_UNEVEN :: bool
  BLACKJACK_PAYOUT :: real
  SHOE_SIZE :: int

type_synonym int128 = "128 word"

record solver =
  utility :: "real list"
  card_distr :: "int list"
  precomp_distr :: "int128 \<Rightarrow> real list option"

text \<open>
  The four constant distributions are fields set once by \<^verbatim>\<open>__cinit__\<close> and never
  written again; they are constants of the model.
\<close>

definition CONSTANT_TIE :: "real list" where
  "CONSTANT_TIE = constant_distr 0"

definition CONSTANT_WIN :: "real list" where
  "CONSTANT_WIN = constant_distr 1"

definition CONSTANT_BLACKJACK :: "real list" where
  "CONSTANT_BLACKJACK = constant_distr 1.5"

definition CONSTANT_LOSE :: "real list" where
  "CONSTANT_LOSE = constant_distr (- 1)"

text \<open>
  \<^verbatim>\<open>RewardDistribution.__cinit__\<close>. The result is the lines printed and the
  constructed object; \<open>None\<close> would be an exception leaving the constructor. Each
  of the three checks prints and then executes \<^verbatim>\<open>pass\<close> under the comment
  \<^verbatim>\<open># Raise error\<close>.
\<close>

definition cinit :: "rule_variation \<Rightarrow> (real \<Rightarrow> real) \<Rightarrow> string list \<times> solver option" where
  "cinit rv utility_function =
     (let utility_table = map (\<lambda>i. utility_function ((real i - 8) / 2)) [0..<17];
          out1 = (if BLACKJACK_PAYOUT rv \<noteq> 1.5 then [''blackjakc_payout_exception''] else []);
          out2 = (if SHOE_SIZE rv \<ge> 25 then [''shoe_size_exception''] else []);
          out3 = (if \<not> DEALER_PEEKS rv then [''dealer_peeks_exception''] else [])
      in (out1 @ out2 @ out3,
          Some \<lparr>utility = utility_table, card_distr = replicate 14 0,
                precomp_distr = Map.empty\<rparr>))"

definition set_card_distribution :: "solver \<Rightarrow> int list \<Rightarrow> solver" where
  "set_card_distribution st card_distribution = st\<lparr>card_distr := card_distribution\<rparr>"

definition free_mem :: "solver \<Rightarrow> solver" where
  "free_mem st = st\<lparr>precomp_distr := Map.empty\<rparr>"

definition distribution_value :: "solver \<Rightarrow> real list \<Rightarrow> real" where
  "distribution_value st distr = fold (\<lambda>i q. q + distr ! i * utility st ! i) [0..<17] 0"

subsection \<open>State hash and cache\<close>

text \<open>
  \<^verbatim>\<open>get_state_hash\<close>: \<open>k\<close> and \<open>hash\<close> are \<^verbatim>\<open>__int128_t\<close>; the \<^verbatim>\<open>int\<close>
  operands are converted to 128 bits before each product.
\<close>

definition get_state_hash :: "solver \<Rightarrow> int \<Rightarrow> int \<Rightarrow> int \<Rightarrow> int \<Rightarrow> int128" where
  "get_state_hash st player_total aces dealer_total mode =
    (let (hash, k) =
           fold (\<lambda>i (hash, k). (hash + k * word_of_int (card_distr st ! i), k * 100))
                [1..<14] (word_of_int mode, 10);
         hash = hash + k * word_of_int player_total;
         k = k * 100;
         hash = hash + k * word_of_int dealer_total;
         k = k * 100;
         hash = hash + k * word_of_int aces
     in hash)"

definition precomputed_distr :: "solver \<Rightarrow> int128 \<Rightarrow> bool" where
  "precomputed_distr st hash = (precomp_distr st hash \<noteq> None)"

subsection \<open>Drawing a card\<close>

definition valid_card_distr :: "solver \<Rightarrow> int \<Rightarrow> nat \<Rightarrow> real" where
  "valid_card_distr st banned_value i =
     (if banned_value = get_value i then 0 else real_of_int (card_distr st ! i))"

definition card_probability :: "solver \<Rightarrow> nat \<Rightarrow> int \<Rightarrow> real" where
  "card_probability st crd banned_value =
     (let cards_left =
            fold (\<lambda>i cards_left. cards_left + valid_card_distr st banned_value i) [1..<14] 0
      in valid_card_distr st banned_value crd / cards_left)"

text \<open>\<^verbatim>\<open>self.card_distr[card] -= 1\<close> and \<^verbatim>\<open>self.card_distr[card] += 1\<close>.\<close>

definition take_card :: "nat \<Rightarrow> solver \<Rightarrow> solver" where
  "take_card crd st = st\<lparr>card_distr := (card_distr st)[crd := card_distr st ! crd - 1]\<rparr>"

definition put_card :: "nat \<Rightarrow> solver \<Rightarrow> solver" where
  "put_card crd st = st\<lparr>card_distr := (card_distr st)[crd := card_distr st ! crd + 1]\<rparr>"

text \<open>\<^verbatim>\<open>self.precomp_distr[state_hash] = distr\<close>.\<close>

definition store :: "int128 \<Rightarrow> real list \<times> solver \<Rightarrow> real list \<times> solver" where
  "store state_hash r =
     (fst r, (snd r)\<lparr>precomp_distr := (precomp_distr (snd r))(state_hash \<mapsto> fst r)\<rparr>)"

text \<open>
  One iteration of the loop that every drawing method repeats for \<^verbatim>\<open>card\<close> in a
  range:
  \<^verbatim>\<open>p = self.card_probability(card, banned_value)\<close>,
  \<^verbatim>\<open>if p > 0: self.card_distr[card] -= 1; add(distr, <call>, p); self.card_distr[card] += 1\<close>.
  The accumulator is the distribution built so far and the solver; \<open>call\<close> is the
  method call made while the card is out of the shoe.
\<close>

definition draw ::
  "(nat \<Rightarrow> solver \<Rightarrow> real list \<times> solver) \<Rightarrow> int \<Rightarrow> nat \<Rightarrow> real list \<times> solver
     \<Rightarrow> real list \<times> solver" where
  "draw call banned_value crd =
     (\<lambda>(distr, st).
        let p = card_probability st crd banned_value in
        if p > 0 then
          (let st = take_card crd st;
               (d, st) = call crd st;
               distr = add distr d p;
               st = put_card crd st
           in (distr, st))
        else (distr, st))"

lemma draw_cong [fundef_cong]:
  assumes "banned_value = banned_value'" and "crd = crd'"
    and "\<And>st. call crd' st = call' crd' st"
  shows "draw call banned_value crd = draw call' banned_value' crd'"
proof -
  have eq: "call crd' = call' crd'"
    using assms(3) by (rule ext)
  show ?thesis
    unfolding draw_def assms(1) assms(2) eq by (rule refl)
qed

subsection \<open>Standing: the dealer draws to completion\<close>

text \<open>The value \<^verbatim>\<open>banned_value\<close> that \<^verbatim>\<open>distr_stand\<close> computes before its loop.\<close>

definition stand_banned_value :: "bool \<Rightarrow> int \<Rightarrow> int" where
  "stand_banned_value first_call dealer_total =
     (let banned_value = 0 in
      if first_call then
        (let banned_value = (if dealer_total = 10 then 11 else banned_value);
             banned_value = (if dealer_total = 11 then 10 else banned_value)
         in banned_value)
      else banned_value)"

function distr_stand ::
  "rule_variation \<Rightarrow> int \<Rightarrow> int \<Rightarrow> int \<Rightarrow> bool \<Rightarrow> solver \<Rightarrow> real list \<times> solver" where
  "distr_stand rv player_total dealer_aces dealer_total first_call st =
    (if player_total > 21 then (CONSTANT_LOSE, st)
     else if dealer_total > 21 then
       (if dealer_aces > 0
        then distr_stand rv player_total (dealer_aces - 1) (dealer_total - 10) False st
        else (CONSTANT_WIN, st))
     else if dealer_total > 17 \<or>
             (dealer_total = 17 \<and> (dealer_aces = 0 \<or> \<not> HIT_SOFT_17 rv)) then
       (if dealer_total = player_total then (CONSTANT_TIE, st)
        else if dealer_total > player_total then (CONSTANT_LOSE, st)
        else (CONSTANT_WIN, st))
     else
       (let state_hash = get_state_hash st player_total dealer_aces dealer_total
                           (if first_call then 3 else 4) in
        case precomp_distr st state_hash of
          Some distr \<Rightarrow> (distr, st)
        | None \<Rightarrow>
           (let banned_value = stand_banned_value first_call dealer_total in
            store state_hash
              (fold (draw (\<lambda>crd st. distr_stand rv player_total
                                       (dealer_aces + is_ace (get_value crd))
                                       (dealer_total + get_value crd) False st)
                          banned_value)
                    [1..<14] (empty_distr, st)))))"
  by pat_completeness auto
termination
  apply (relation "measures [\<lambda>(rv, pt, da, dt, fc, st). nat (18 - (dt - 10 * max da 0)),
                             \<lambda>(rv, pt, da, dt, fc, st). nat da]")
    apply simp
   apply (auto simp: get_value_def is_ace_def max_def)
  done

declare distr_stand.simps [simp del]

subsection \<open>Hitting, and the choice between hitting and standing\<close>

function distr_hit ::
    "rule_variation \<Rightarrow> int \<Rightarrow> int \<Rightarrow> int \<Rightarrow> solver \<Rightarrow> real list \<times> solver"
  and distr_hit_stand ::
    "rule_variation \<Rightarrow> int \<Rightarrow> int \<Rightarrow> int \<Rightarrow> solver \<Rightarrow> real list \<times> solver" where
  "distr_hit rv player_total player_aces dealer_total st =
    (if player_total > 21 then
       (if player_aces > 0
        then distr_hit rv (player_total - 10) (player_aces - 1) dealer_total st
        else (CONSTANT_LOSE, st))
     else
       (let state_hash = get_state_hash st player_total player_aces dealer_total 2 in
        case precomp_distr st state_hash of
          Some distr \<Rightarrow> (distr, st)
        | None \<Rightarrow>
            store state_hash
              (fold (draw (\<lambda>crd st. distr_hit_stand rv
                                       (player_total + get_value crd)
                                       (player_aces + is_ace (get_value crd))
                                       dealer_total st)
                          0)
                    [1..<14] (empty_distr, st))))"
| "distr_hit_stand rv player_total player_aces dealer_total st =
    (let (player_total, player_aces) =
           (if player_total > 21 \<and> player_aces > 0
            then (player_total - 10, player_aces - 1) else (player_total, player_aces));
         (hit, st) = distr_hit rv player_total player_aces dealer_total st;
         (stand, st) = distr_stand rv player_total (is_ace dealer_total) dealer_total True st
     in (if distribution_value st hit > distribution_value st stand then hit else stand, st))"
  by pat_completeness auto
termination
  apply (relation "measures [
     (\<lambda>x. case x of
        Inl (rv, pt, pa, dt, st) \<Rightarrow> 2 * nat (22 - (pt - 10 * max pa 0))
      | Inr (rv, pt, pa, dt, st) \<Rightarrow> 2 * nat (22 - (pt - 10 * max pa 0)) + 1),
     (\<lambda>x. case x of
        Inl (rv, pt, pa, dt, st) \<Rightarrow> nat pa
      | Inr (rv, pt, pa, dt, st) \<Rightarrow> 0)]")
    apply simp
   apply (auto simp: get_value_def is_ace_def max_def split: if_splits)
  done

declare distr_hit.simps [simp del] distr_hit_stand.simps [simp del]

subsection \<open>Doubling down, blackjack and the three-way choice\<close>

definition distr_double ::
  "rule_variation \<Rightarrow> int \<Rightarrow> int \<Rightarrow> int \<Rightarrow> solver \<Rightarrow> real list \<times> solver" where
  "distr_double rv player_total player_aces dealer_total st =
    (let state_hash = get_state_hash st player_total player_aces dealer_total 1 in
     case precomp_distr st state_hash of
       Some distr \<Rightarrow> (distr, st)
     | None \<Rightarrow>
        (let (distr, st) =
               fold (draw (\<lambda>crd st.
                             let player_total_with_card = player_total + get_value crd;
                                 player_total_with_card =
                                   (if player_total_with_card > 21 \<and>
                                       player_aces + is_ace (get_value crd) > 0
                                    then player_total_with_card - 10
                                    else player_total_with_card)
                             in distr_stand rv player_total_with_card
                                  (is_ace dealer_total) dealer_total True st)
                          0)
                    [1..<14] (empty_distr, st)
         in store state_hash (double_distr distr, st)))"

definition distr_blackjack :: "int \<Rightarrow> solver \<Rightarrow> real list \<times> solver" where
  "distr_blackjack dealer_total st =
    (if dealer_total < 10 then (CONSTANT_BLACKJACK, st)
     else
       (let state_hash = get_state_hash st 21 1 dealer_total 5 in
        case precomp_distr st state_hash of
          Some distr \<Rightarrow> (distr, st)
        | None \<Rightarrow>
           (let p = (if dealer_total = 10 then card_probability st 1 0
                     else card_probability st 10 0 + card_probability st 11 0 +
                          card_probability st 12 0 + card_probability st 13 0);
                distr = add empty_distr CONSTANT_TIE p;
                distr = add distr CONSTANT_BLACKJACK (1 - p)
            in store state_hash (distr, st))))"

definition distr_hit_stand_double ::
  "rule_variation \<Rightarrow> int \<Rightarrow> int \<Rightarrow> int \<Rightarrow> solver \<Rightarrow> real list \<times> solver" where
  "distr_hit_stand_double rv player_total player_aces dealer_total st =
    (let (player_total, player_aces) =
           (if player_total > 21 \<and> player_aces > 0
            then (player_total - 10, player_aces - 1) else (player_total, player_aces))
     in if player_total = 21 then distr_blackjack dealer_total st
        else
          (let (hit_stand, st) = distr_hit_stand rv player_total player_aces dealer_total st;
               (dbl, st) = distr_double rv player_total player_aces dealer_total st
           in (if distribution_value st hit_stand > distribution_value st dbl
               then hit_stand else dbl, st)))"

subsection \<open>Splitting\<close>

definition distr_split_general ::
  "rule_variation \<Rightarrow> int \<Rightarrow> int \<Rightarrow> solver \<Rightarrow> real list \<times> solver" where
  "distr_split_general rv player_card dealer_total st =
    (let state_hash = get_state_hash st player_card 0 dealer_total 0 in
     case precomp_distr st state_hash of
       Some distr \<Rightarrow> (distr, st)
     | None \<Rightarrow>
        (let (distr, st) =
               fold (draw (\<lambda>crd st.
                             if DOUBLE_AFTER_SPLIT rv
                             then distr_hit_stand_double rv (player_card + get_value crd)
                                    (is_ace (get_value crd)) dealer_total st
                             else distr_hit_stand rv (player_card + get_value crd)
                                    (is_ace (get_value crd)) dealer_total st)
                          0)
                    [1..<14] (empty_distr, st)
         in store state_hash (double_variable distr, st)))"

definition distr_split_tens ::
  "rule_variation \<Rightarrow> int \<Rightarrow> solver \<Rightarrow> real list \<times> solver" where
  "distr_split_tens rv dealer_total st =
    (let state_hash = get_state_hash st 10 0 dealer_total 0 in
     case precomp_distr st state_hash of
       Some distr \<Rightarrow> (distr, st)
     | None \<Rightarrow>
        (let (distr, st) =
               fold (draw (\<lambda>crd st.
                             if DOUBLE_AFTER_SPLIT rv
                             then distr_hit_stand_double rv (10 + get_value crd) 0
                                    dealer_total st
                             else distr_hit_stand rv (10 + get_value crd) 0 dealer_total st)
                          0)
                    [2..<14] (empty_distr, st);
             p = card_probability st 1 0;
             distr = (if p > 0 then add distr CONSTANT_BLACKJACK p else distr)
         in store state_hash (double_variable distr, st)))"

definition distr_split_aces ::
  "rule_variation \<Rightarrow> int \<Rightarrow> solver \<Rightarrow> real list \<times> solver" where
  "distr_split_aces rv dealer_total st =
    (let state_hash = get_state_hash st 11 1 dealer_total 0 in
     case precomp_distr st state_hash of
       Some distr \<Rightarrow> (distr, st)
     | None \<Rightarrow>
        (let (distr, st) =
               fold (draw (\<lambda>crd st.
                             if HIT_AFTER_SPLIT_ACES rv then
                               (if DOUBLE_AFTER_SPLIT rv
                                then distr_hit_stand_double rv (11 + int crd) 1 dealer_total st
                                else distr_hit_stand rv (11 + int crd) 1 dealer_total st)
                             else distr_stand rv (11 + int crd) (is_ace dealer_total)
                                    dealer_total True st)
                          0)
                    [1..<10] (empty_distr, st);
             (distr, st) =
               fold (\<lambda>crd (distr, st).
                       let p = card_probability st crd 0 in
                       if p > 0 then
                         (if BLACKJACK_WITH_SPLIT_ACES rv
                          then (add distr CONSTANT_BLACKJACK p, st)
                          else
                            (let st = take_card crd st;
                                 (d, st) = distr_stand rv 21 (is_ace dealer_total)
                                             dealer_total True st
                             in (add distr d p, put_card crd st)))
                       else (distr, st))
                    [10..<14] (distr, st)
         in store state_hash (double_variable distr, st)))"

text \<open>
  \<^verbatim>\<open>distr_split\<close> takes untyped arguments: \<^verbatim>\<open>player_total / 2\<close> is Python's true
  division, and the quotient is converted to the C \<^verbatim>\<open>int\<close> parameter of
  \<^verbatim>\<open>distr_split_general\<close> by truncation.
\<close>

definition half_truncated :: "int \<Rightarrow> int" where
  "half_truncated n = (if n \<ge> 0 then n div 2 else - ((- n) div 2))"

definition distr_split ::
  "rule_variation \<Rightarrow> int \<Rightarrow> int \<Rightarrow> int \<Rightarrow> solver \<Rightarrow> real list \<times> solver" where
  "distr_split rv player_total player_aces dealer_total st =
    (if player_aces > 0 then distr_split_aces rv dealer_total st
     else if player_total = 20 then distr_split_tens rv dealer_total st
     else distr_split_general rv (half_truncated player_total) dealer_total st)"

subsection \<open>The Kelly bettor's pre-deal distribution\<close>

text \<open>
  \<^verbatim>\<open>get_probability\<close> works on the caller's shoe (a memoryview) and returns the
  probability together with the shoe it leaves behind.
\<close>

definition get_probability :: "int list \<Rightarrow> nat \<Rightarrow> nat \<Rightarrow> nat \<Rightarrow> real \<times> int list" where
  "get_probability distr card1 card2 card3 =
    (let cards_left = fold (\<lambda>i cards_left. cards_left + real_of_int (distr ! i)) [1..<14] 0
     in if cards_left < 3 then (0, distr)
        else
          (let p = real_of_int (distr ! card1) / cards_left;
               distr = distr[card1 := distr ! card1 - 1];
               p = p * (real_of_int (distr ! card2) / (cards_left - 1));
               distr = distr[card2 := distr ! card2 - 1];
               p = p * (real_of_int (distr ! card3) / (cards_left - 2));
               distr = distr[card1 := distr ! card1 + 1];
               distr = distr[card2 := distr ! card2 + 1]
           in (p, distr)))"

definition get_player :: "nat \<Rightarrow> nat \<Rightarrow> int \<times> int" where
  "get_player player_first player_second =
    (let player_total = get_value player_first + get_value player_second;
         player_aces = bettor_is_ace player_first + bettor_is_ace player_second
     in if player_total > 21 then (player_total - 10, player_aces - 1)
        else (player_total, player_aces))"

definition remove_cards :: "int list \<Rightarrow> nat \<Rightarrow> nat \<Rightarrow> nat \<Rightarrow> int list" where
  "remove_cards distr card1 card2 card3 =
    (let modified_card_distr = map (\<lambda>i. distr ! i) [0..<14];
         modified_card_distr = modified_card_distr[card1 := modified_card_distr ! card1 - 1];
         modified_card_distr = modified_card_distr[card2 := modified_card_distr ! card2 - 1];
         modified_card_distr = modified_card_distr[card3 := modified_card_distr ! card3 - 1]
     in modified_card_distr)"

definition get_dealer_blackjack_probability :: "int list \<Rightarrow> int \<Rightarrow> real" where
  "get_dealer_blackjack_probability card_distribution dealer_total =
    (let cards_left =
           fold (\<lambda>i cards_left. cards_left + real_of_int (card_distribution ! i)) [1..<14] 0
     in if dealer_total = 10 then real_of_int (card_distribution ! 1) / cards_left
        else real_of_int (card_distribution ! 10 + card_distribution ! 11 +
                          card_distribution ! 12 + card_distribution ! 13) / cards_left)"

definition matching_cards :: "rule_variation \<Rightarrow> nat \<Rightarrow> nat \<Rightarrow> bool" where
  "matching_cards rv card1 card2 =
    (if SPLIT_UNEVEN rv then get_value card1 = get_value card2 else card1 = card2)"

text \<open>
  The distribution \<^verbatim>\<open>current_distr\<close> that one iteration of \<^verbatim>\<open>get_distr\<close> holds when
  it reaches its two \<^verbatim>\<open>add\<close> calls: the solver is given the shoe without the three
  dealt cards, and splitting replaces hit-stand-double when its value is larger.
\<close>

definition get_distr_current ::
  "rule_variation \<Rightarrow> solver \<Rightarrow> int list \<Rightarrow> nat \<Rightarrow> nat \<Rightarrow> nat \<Rightarrow> real list \<times> solver" where
  "get_distr_current rv rd card_distribution player_first player_second dealer_shown =
    (let (player_total, player_aces) = get_player player_first player_second;
         dealer_total = get_value dealer_shown;
         modified_card_distr =
           remove_cards card_distribution player_first player_second dealer_shown;
         rd = set_card_distribution rd modified_card_distr;
         (current_distr, rd) = distr_hit_stand_double rv player_total player_aces dealer_total rd
     in if matching_cards rv player_first player_second then
          (let (split_distr, rd) = distr_split rv player_total player_aces dealer_total rd
           in (if distribution_value rd split_distr > distribution_value rd current_distr
               then split_distr else current_distr, rd))
        else (current_distr, rd))"

text \<open>
  The body of the innermost loop of \<^verbatim>\<open>get_distr\<close>, on the aggregate \<open>distr\<close>, the
  caller's shoe and the solver. In the source \<^verbatim>\<open>q\<close> is computed between the call
  of \<^verbatim>\<open>distr_hit_stand_double\<close> and the split comparison; it reads only the
  caller's shoe, which neither of them touches.
\<close>

definition get_distr_step ::
  "rule_variation \<Rightarrow> nat \<Rightarrow> nat \<Rightarrow> nat \<Rightarrow> real list \<times> int list \<times> solver
     \<Rightarrow> real list \<times> int list \<times> solver" where
  "get_distr_step rv player_first player_second dealer_shown acc =
    (case acc of (distr, card_distribution, rd) \<Rightarrow>
      (let (p, card_distribution) =
             get_probability card_distribution player_first player_second dealer_shown
       in if p = 0 then (distr, card_distribution, rd)
          else
            (let (player_total, player_aces) = get_player player_first player_second;
                 dealer_total = get_value dealer_shown;
                 (current_distr, rd) =
                   get_distr_current rv rd card_distribution
                     player_first player_second dealer_shown;
                 q = (if dealer_total < 10 then 0
                      else get_dealer_blackjack_probability card_distribution dealer_total);
                 distr = add distr current_distr (p * (1 - q));
                 distr = add distr (if player_total = 21 then CONSTANT_TIE else CONSTANT_LOSE)
                           (p * q)
             in (distr, card_distribution, rd))))"

text \<open>
  \<^verbatim>\<open>KellyBettor.get_distr\<close>: the result, the caller's shoe after the call and the
  bettor's solver after the call.
\<close>

definition get_distr ::
  "rule_variation \<Rightarrow> solver \<Rightarrow> int list \<Rightarrow> real list \<times> int list \<times> solver" where
  "get_distr rv rd card_distribution =
    (let (distr, card_distribution, rd) =
           fold (\<lambda>player_first.
              fold (\<lambda>player_second.
                 fold (\<lambda>dealer_shown. get_distr_step rv player_first player_second dealer_shown)
                   [1..<14])
                [1..<14])
             [1..<14] (replicate 17 0, card_distribution, rd)
     in (distr, card_distribution, free_mem rd))"

subsection \<open>Definitions used to state the properties\<close>


text \<open>A rule configuration and a solver with the identity utility, for concrete instances.\<close>

definition example_rules :: rule_variation where
  "example_rules = \<lparr>HIT_SOFT_17 = True, DEALER_PEEKS = True, DOUBLE_AFTER_SPLIT = True,
     HIT_AFTER_SPLIT_ACES = False, BLACKJACK_WITH_SPLIT_ACES = False, SPLIT_UNEVEN = False,
     BLACKJACK_PAYOUT = 1.5, SHOE_SIZE = 8\<rparr>"

definition example_solver :: "int list \<Rightarrow> solver" where
  "example_solver shoe =
     \<lparr>utility = map (\<lambda>i. (real i - 8) / 2) [0..<17], card_distr = shoe,
      precomp_distr = Map.empty\<rparr>"

text \<open>
  The hand as \<^verbatim>\<open>distr_hit_stand\<close> and \<^verbatim>\<open>distr_hit_stand_double\<close> read it after their
  first statement: above 21 with a soft ace, one ace is counted as 1.
\<close>

definition demoted_hand :: "int \<Rightarrow> int \<Rightarrow> int \<times> int" where
  "demoted_hand player_total player_aces =
     (if player_total > 21 \<and> player_aces > 0
      then (player_total - 10, player_aces - 1) else (player_total, player_aces))"

text \<open>
  The example solver with a cache given as a list of entries, the newest first; the
  states that a run from \<open>example_solver\<close> passes through have this form.
\<close>

definition cached_solver :: "int list \<Rightarrow> (int128 \<times> real list) list \<Rightarrow> solver" where
  "cached_solver shoe entries =
     \<lparr>utility = map (\<lambda>i. (real i - 8) / 2) [0..<17], card_distr = shoe,
      precomp_distr = map_of entries\<rparr>"

text \<open>The integer that \<^verbatim>\<open>get_state_hash\<close> packs, before it is cut to 128 bits.\<close>

definition packed_state :: "int list \<Rightarrow> int \<Rightarrow> int \<Rightarrow> int \<Rightarrow> int \<Rightarrow> int" where
  "packed_state shoe player_total aces dealer_total mode =
     mode + 10 * foldr (\<lambda>d acc. d + 100 * acc)
                   (map (\<lambda>i. shoe ! i) [1..<14] @ [player_total, dealer_total]) aces"

text \<open>The solver \<open>st'\<close> has the shoe and the utility table of \<open>st\<close>.\<close>

definition same_shoe :: "solver \<Rightarrow> solver \<Rightarrow> bool" where
  "same_shoe st st' = (card_distr st' = card_distr st \<and> utility st' = utility st)"




definition cards_left :: "solver \<Rightarrow> int \<Rightarrow> real" where
  "cards_left st banned_value = (\<Sum>i = 1..13. valid_card_distr st banned_value i)"





section \<open>Properties\<close>

subsection \<open>Unfolding the recursive methods by case\<close>

lemma distr_stand_bust:
  "player_total > 21 \<Longrightarrow> distr_stand rv player_total da dt fc st = (CONSTANT_LOSE, st)"
  by (subst distr_stand.simps) simp

lemma distr_stand_demote:
  "\<not> pt > 21 \<Longrightarrow> dt > 21 \<Longrightarrow> da > 0 \<Longrightarrow>
   distr_stand rv pt da dt fc st = distr_stand rv pt (da - 1) (dt - 10) False st"
  by (subst distr_stand.simps) simp

lemma distr_stand_dealer_bust:
  "\<not> pt > 21 \<Longrightarrow> dt > 21 \<Longrightarrow> \<not> da > 0 \<Longrightarrow> distr_stand rv pt da dt fc st = (CONSTANT_WIN, st)"
  by (subst distr_stand.simps) simp

lemma distr_stand_compare:
  "\<not> pt > 21 \<Longrightarrow> \<not> dt > 21 \<Longrightarrow> dt > 17 \<or> (dt = 17 \<and> (da = 0 \<or> \<not> HIT_SOFT_17 rv)) \<Longrightarrow>
   distr_stand rv pt da dt fc st =
     (if dt = pt then CONSTANT_TIE else if dt > pt then CONSTANT_LOSE else CONSTANT_WIN, st)"
  by (subst distr_stand.simps) auto

lemma distr_stand_cached:
  "\<not> pt > 21 \<Longrightarrow> \<not> dt > 21 \<Longrightarrow> \<not> (dt > 17 \<or> (dt = 17 \<and> (da = 0 \<or> \<not> HIT_SOFT_17 rv))) \<Longrightarrow>
   precomp_distr st (get_state_hash st pt da dt (if fc then 3 else 4)) = Some d \<Longrightarrow>
   distr_stand rv pt da dt fc st = (d, st)"
  by (subst distr_stand.simps) (auto simp: Let_def)

lemma distr_stand_miss:
  "\<not> pt > 21 \<Longrightarrow> \<not> dt > 21 \<Longrightarrow> \<not> (dt > 17 \<or> (dt = 17 \<and> (da = 0 \<or> \<not> HIT_SOFT_17 rv))) \<Longrightarrow>
   precomp_distr st (get_state_hash st pt da dt (if fc then 3 else 4)) = None \<Longrightarrow>
   distr_stand rv pt da dt fc st =
     store (get_state_hash st pt da dt (if fc then 3 else 4))
       (fold (draw (\<lambda>crd st. distr_stand rv pt (da + is_ace (get_value crd))
                                 (dt + get_value crd) False st)
                   (stand_banned_value fc dt))
             [1..<14] (empty_distr, st))"
  by (subst distr_stand.simps) (auto simp: Let_def)

lemma distr_hit_demote:
  "pt > 21 \<Longrightarrow> pa > 0 \<Longrightarrow> distr_hit rv pt pa dt st = distr_hit rv (pt - 10) (pa - 1) dt st"
  by (subst distr_hit.simps) simp

lemma distr_hit_bust:
  "pt > 21 \<Longrightarrow> \<not> pa > 0 \<Longrightarrow> distr_hit rv pt pa dt st = (CONSTANT_LOSE, st)"
  by (subst distr_hit.simps) simp

lemma distr_hit_cached:
  "\<not> pt > 21 \<Longrightarrow> precomp_distr st (get_state_hash st pt pa dt 2) = Some d \<Longrightarrow>
   distr_hit rv pt pa dt st = (d, st)"
  by (subst distr_hit.simps) (simp add: Let_def)

lemma distr_hit_miss:
  "\<not> pt > 21 \<Longrightarrow> precomp_distr st (get_state_hash st pt pa dt 2) = None \<Longrightarrow>
   distr_hit rv pt pa dt st =
     store (get_state_hash st pt pa dt 2)
       (fold (draw (\<lambda>crd st. distr_hit_stand rv (pt + get_value crd)
                                 (pa + is_ace (get_value crd)) dt st) 0)
             [1..<14] (empty_distr, st))"
  by (subst distr_hit.simps) (simp add: Let_def)

subsection \<open>Frame: the shoe and the utility table\<close>

lemma same_shoe_refl: "same_shoe st st"
  by (simp add: same_shoe_def)

lemma same_shoe_trans: "same_shoe a b \<Longrightarrow> same_shoe b c \<Longrightarrow> same_shoe a c"
  by (simp add: same_shoe_def)

lemma distribution_value_frame:
  "same_shoe st st' \<Longrightarrow> distribution_value st' d = distribution_value st d"
  by (simp add: same_shoe_def distribution_value_def)

lemma list_take_put: "(xs[c := xs ! c - 1])[c := (xs[c := xs ! c - 1]) ! c + 1] = (xs :: int list)"
  by (cases "c < length xs") (simp_all add: list_update_beyond)

lemma put_after_take:
  assumes "same_shoe (take_card c st) st'"
  shows "same_shoe st (put_card c st')"
proof -
  from assms have "card_distr st' = (card_distr st)[c := card_distr st ! c - 1]" and "utility st' = utility st"
    by (simp_all add: same_shoe_def take_card_def)
  then show ?thesis
    using list_take_put[of "card_distr st" c] by (simp add: same_shoe_def put_card_def)
qed

lemma same_shoe_store: "same_shoe st (snd r) \<Longrightarrow> same_shoe st (snd (store k r))"
  by (simp add: same_shoe_def store_def)

lemma draw_same_shoe:
  assumes "\<And>s. same_shoe s (snd (call c s))"
  shows "same_shoe (snd acc) (snd (draw call b c acc))"
proof (cases acc)
  case (Pair distr st)
  show ?thesis
  proof (cases "card_probability st c b > 0")
    case True
    obtain d s' where r: "call c (take_card c st) = (d, s')" by (cases "call c (take_card c st)")
    have "same_shoe (take_card c st) s'" using assms[of "take_card c st"] r by simp
    then have "same_shoe st (put_card c s')" by (rule put_after_take)
    then show ?thesis using True r by (simp add: Pair draw_def)
  next
    case False
    then show ?thesis by (simp add: Pair draw_def same_shoe_refl)
  qed
qed

lemma fold_draw_same_shoe:
  assumes "\<And>c s. c \<in> set cs \<Longrightarrow> same_shoe s (snd (call c s))"
  shows "same_shoe (snd acc) (snd (fold (draw call b) cs acc))"
  using assms
proof (induction cs arbitrary: acc)
  case Nil
  show ?case by (simp add: same_shoe_refl)
next
  case (Cons c cs)
  have 1: "same_shoe (snd acc) (snd (draw call b c acc))"
    by (rule draw_same_shoe) (simp add: Cons.prems)
  have 2: "same_shoe (snd (draw call b c acc)) (snd (fold (draw call b) cs (draw call b c acc)))"
    by (rule Cons.IH) (simp add: Cons.prems)
  from 1 2 show ?case by (simp add: same_shoe_trans)
qed

lemma distr_stand_same_shoe: "same_shoe st (snd (distr_stand rv pt da dt fc st))"
proof (induction rv pt da dt fc st rule: distr_stand.induct)
  case (1 rv pt da dt fc st)
  let ?h = "get_state_hash st pt da dt (if fc then 3 else 4)"
  consider (bust) "pt > 21"
    | (demote) "\<not> pt > 21" "dt > 21" "da > 0"
    | (dbust) "\<not> pt > 21" "dt > 21" "\<not> da > 0"
    | (cmp) "\<not> pt > 21" "\<not> dt > 21" "dt > 17 \<or> (dt = 17 \<and> (da = 0 \<or> \<not> HIT_SOFT_17 rv))"
    | (hit) d where "\<not> pt > 21" "\<not> dt > 21" "\<not> (dt > 17 \<or> (dt = 17 \<and> (da = 0 \<or> \<not> HIT_SOFT_17 rv)))"
        "precomp_distr st ?h = Some d"
    | (miss) "\<not> pt > 21" "\<not> dt > 21" "\<not> (dt > 17 \<or> (dt = 17 \<and> (da = 0 \<or> \<not> HIT_SOFT_17 rv)))"
        "precomp_distr st ?h = None"
    by (cases "precomp_distr st ?h") blast+
  then show ?case
  proof cases
    case bust
    then show ?thesis by (simp add: distr_stand_bust same_shoe_refl)
  next
    case demote
    then show ?thesis using "1.IH"(1)[OF demote] by (simp add: distr_stand_demote[OF demote])
  next
    case dbust
    then show ?thesis by (simp add: distr_stand_dealer_bust[OF dbust] same_shoe_refl)
  next
    case cmp
    then show ?thesis by (simp add: distr_stand_compare[OF cmp] same_shoe_refl)
  next
    case hit
    then show ?thesis by (simp add: distr_stand_cached[OF hit] same_shoe_refl)
  next
    case miss
    have "same_shoe (snd (empty_distr, st))
            (snd (fold (draw (\<lambda>crd st. distr_stand rv pt (da + is_ace (get_value crd))
                                 (dt + get_value crd) False st) (stand_banned_value fc dt))
                  [1..<14] (empty_distr, st)))"
      by (rule fold_draw_same_shoe) (rule "1.IH"(2)[OF miss(1,2,3) refl miss(4) refl])
    then show ?thesis
      by (simp add: distr_stand_miss[OF miss] same_shoe_store)
  qed
qed

lemma distr_hit_same_shoe:
  "same_shoe st (snd (distr_hit rv pt pa dt st))"
  and distr_hit_stand_same_shoe: "same_shoe st (snd (distr_hit_stand rv pt pa dt st))"
proof (induction rv pt pa dt st and rv pt pa dt st rule: distr_hit_distr_hit_stand.induct)
  case (1 rv pt pa dt st)
  let ?h = "get_state_hash st pt pa dt 2"
  consider (demote) "pt > 21" "pa > 0"
    | (bust) "pt > 21" "\<not> pa > 0"
    | (hit) d where "\<not> pt > 21" "precomp_distr st ?h = Some d"
    | (miss) "\<not> pt > 21" "precomp_distr st ?h = None"
    by (cases "precomp_distr st ?h") blast+
  then show ?case
  proof cases
    case demote
    then show ?thesis using "1.IH"(1)[OF demote] by (simp add: distr_hit_demote[OF demote])
  next
    case bust
    then show ?thesis by (simp add: distr_hit_bust[OF bust] same_shoe_refl)
  next
    case hit
    then show ?thesis by (simp add: distr_hit_cached[OF hit] same_shoe_refl)
  next
    case miss
    have "same_shoe (snd (empty_distr, st))
            (snd (fold (draw (\<lambda>crd st. distr_hit_stand rv (pt + get_value crd)
                                 (pa + is_ace (get_value crd)) dt st) 0)
                  [1..<14] (empty_distr, st)))"
      by (rule fold_draw_same_shoe) (rule "1.IH"(2)[OF miss(1) refl miss(2)])
    then show ?thesis
      by (simp add: distr_hit_miss[OF miss] same_shoe_store)
  qed
next
  case (2 rv pt pa dt st)
  obtain pt' pa' where n: "(if 21 < pt \<and> 0 < pa then (pt - 10, pa - 1) else (pt, pa)) = (pt', pa')"
    by (cases "(if 21 < pt \<and> 0 < pa then (pt - 10, pa - 1) else (pt, pa))")
  obtain h s1 where h: "distr_hit rv pt' pa' dt st = (h, s1)" by (cases "distr_hit rv pt' pa' dt st")
  obtain s s2 where s: "distr_stand rv pt' (is_ace dt) dt True s1 = (s, s2)"
    by (cases "distr_stand rv pt' (is_ace dt) dt True s1")
  have 1: "same_shoe st s1" using "2.IH"[OF refl n[symmetric]] h by simp
  have 2: "same_shoe s1 s2" using distr_stand_same_shoe[of s1 rv pt' "is_ace dt" dt True] s by simp
  have "snd (distr_hit_stand rv pt pa dt st) = s2"
    by (subst distr_hit_stand.simps) (simp add: n h s)
  then show ?case using same_shoe_trans[OF 1 2] by simp
qed

lemma fold_same_shoe:
  assumes "\<And>c acc. c \<in> set cs \<Longrightarrow> same_shoe (snd acc) (snd (f c acc))"
  shows "same_shoe (snd acc) (snd (fold f cs acc))"
  using assms
proof (induction cs arbitrary: acc)
  case Nil
  show ?case by (simp add: same_shoe_refl)
next
  case (Cons c cs)
  have 1: "same_shoe (snd acc) (snd (f c acc))"
    by (rule Cons.prems) simp
  have 2: "same_shoe (snd (f c acc)) (snd (fold f cs (f c acc)))"
    by (rule Cons.IH) (simp add: Cons.prems)
  from 1 2 show ?case by (simp add: same_shoe_trans)
qed

lemma same_shoe_store_after:
  assumes "same_shoe st (snd r)"
  shows "same_shoe st (snd (case r of (distr, st') \<Rightarrow> store k (f distr, st')))"
  using assms by (cases r) (simp add: store_def same_shoe_def)

lemma fold_draw_same_shoe_init:
  assumes "\<And>c s. c \<in> set cs \<Longrightarrow> same_shoe s (snd (call c s))"
  shows "same_shoe st (snd (fold (draw call b) cs (d0, st)))"
  using fold_draw_same_shoe[of cs call "(d0, st)" b] assms by simp

lemma distr_double_same_shoe: "same_shoe st (snd (distr_double rv pt pa dt st))"
proof (cases "precomp_distr st (get_state_hash st pt pa dt 1)")
  case None
  show ?thesis
    unfolding distr_double_def Let_def None option.case
    apply (rule same_shoe_store_after)
    apply (rule fold_draw_same_shoe_init)
    apply (rule distr_stand_same_shoe)
    done
next
  case (Some d)
  then show ?thesis by (simp add: distr_double_def same_shoe_refl)
qed

lemma distr_blackjack_same_shoe: "same_shoe st (snd (distr_blackjack dt st))"
  by (simp add: distr_blackjack_def Let_def store_def same_shoe_def split: option.split)

lemma distr_hit_stand_double_same_shoe:
  "same_shoe st (snd (distr_hit_stand_double rv pt pa dt st))"
proof -
  obtain pt' pa' where n: "(if 21 < pt \<and> 0 < pa then (pt - 10, pa - 1) else (pt, pa)) = (pt', pa')"
    by (cases "(if 21 < pt \<and> 0 < pa then (pt - 10, pa - 1) else (pt, pa))")
  obtain h s1 where h: "distr_hit_stand rv pt' pa' dt st = (h, s1)"
    by (cases "distr_hit_stand rv pt' pa' dt st")
  obtain d s2 where d: "distr_double rv pt' pa' dt s1 = (d, s2)"
    by (cases "distr_double rv pt' pa' dt s1")
  have 1: "same_shoe st s1" using distr_hit_stand_same_shoe[of st rv pt' pa' dt] h by simp
  have 2: "same_shoe s1 s2" using distr_double_same_shoe[of s1 rv pt' pa' dt] d by simp
  show ?thesis
    using same_shoe_trans[OF 1 2] distr_blackjack_same_shoe[of st dt]
    by (simp add: distr_hit_stand_double_def n h d)
qed

lemma distr_split_general_same_shoe:
  "same_shoe st (snd (distr_split_general rv player_card dt st))"
proof (cases "precomp_distr st (get_state_hash st player_card 0 dt 0)")
  case None
  show ?thesis
    unfolding distr_split_general_def Let_def None option.case
    apply (rule same_shoe_store_after)
    apply (rule fold_draw_same_shoe_init)
    apply (simp add: distr_hit_stand_double_same_shoe distr_hit_stand_same_shoe)
    done
next
  case (Some d)
  then show ?thesis by (simp add: distr_split_general_def same_shoe_refl)
qed

lemma distr_split_tens_same_shoe:
  "same_shoe st (snd (distr_split_tens rv dt st))"
proof (cases "precomp_distr st (get_state_hash st 10 0 dt 0)")
  case None
  let ?r = "fold (draw (\<lambda>crd st.
                   if DOUBLE_AFTER_SPLIT rv
                   then distr_hit_stand_double rv (10 + get_value crd) 0 dt st
                   else distr_hit_stand rv (10 + get_value crd) 0 dt st) 0)
            [2..<14] (empty_distr, st)"
  have "same_shoe (snd (empty_distr, st)) (snd ?r)"
    by (rule fold_draw_same_shoe)
       (simp add: distr_hit_stand_double_same_shoe distr_hit_stand_same_shoe)
  then have "same_shoe st (snd ?r)" by simp
  then show ?thesis
    unfolding distr_split_tens_def Let_def None option.case
    by (cases ?r) (simp add: store_def same_shoe_def)
next
  case (Some d)
  then show ?thesis by (simp add: distr_split_tens_def same_shoe_refl)
qed

lemma split_aces_tens_same_shoe:
  "same_shoe (snd acc)
     (snd (fold (\<lambda>crd (distr, st).
                       let p = card_probability st crd 0 in
                       if p > 0 then
                         (if BLACKJACK_WITH_SPLIT_ACES rv
                          then (add distr CONSTANT_BLACKJACK p, st)
                          else
                            (let st = take_card crd st;
                                 (d, st) = distr_stand rv 21 (is_ace dt) dt True st
                             in (add distr d p, put_card crd st)))
                       else (distr, st))
                    cs acc))"
proof (rule fold_same_shoe)
  fix c and acc :: "real list \<times> solver"
  obtain distr st where acc: "acc = (distr, st)" by (cases acc)
  obtain d s' where r: "distr_stand rv 21 (is_ace dt) dt True (take_card c st) = (d, s')"
    by (cases "distr_stand rv 21 (is_ace dt) dt True (take_card c st)")
  have "same_shoe (take_card c st) s'"
    using distr_stand_same_shoe[of "take_card c st" rv 21 "is_ace dt" dt True] r by simp
  then have "same_shoe st (put_card c s')" by (rule put_after_take)
  then show "same_shoe (snd acc)
          (snd (case acc of
                (distr, st) \<Rightarrow>
                  let p = card_probability st c 0
                  in if 0 < p
                     then if BLACKJACK_WITH_SPLIT_ACES rv
                          then (add distr CONSTANT_BLACKJACK p, st)
                          else let st = take_card c st;
                                   (d, st) = distr_stand rv 21 (is_ace dt) dt True st
                               in (add distr d p, put_card c st)
                     else (distr, st)))"
    by (simp add: acc Let_def r same_shoe_refl)
qed

lemma distr_split_aces_same_shoe:
  "same_shoe st (snd (distr_split_aces rv dt st))"
proof (cases "precomp_distr st (get_state_hash st 11 1 dt 0)")
  case None
  let ?r = "fold (draw (\<lambda>crd st.
                             if HIT_AFTER_SPLIT_ACES rv then
                               (if DOUBLE_AFTER_SPLIT rv
                                then distr_hit_stand_double rv (11 + int crd) 1 dt st
                                else distr_hit_stand rv (11 + int crd) 1 dt st)
                             else distr_stand rv (11 + int crd) (is_ace dt) dt True st)
                          0)
                    [1..<10] (empty_distr, st)"
  let ?f = "\<lambda>crd (distr, st).
                       let p = card_probability st crd 0 in
                       if p > 0 then
                         (if BLACKJACK_WITH_SPLIT_ACES rv
                          then (add distr CONSTANT_BLACKJACK p, st)
                          else
                            (let st = take_card crd st;
                                 (d, st) = distr_stand rv 21 (is_ace dt) dt True st
                             in (add distr d p, put_card crd st)))
                       else (distr, st)"
  have "same_shoe (snd (empty_distr, st)) (snd ?r)"
    by (rule fold_draw_same_shoe)
       (simp add: distr_hit_stand_double_same_shoe distr_hit_stand_same_shoe distr_stand_same_shoe)
  then have 1: "same_shoe st (snd ?r)" by simp
  have 2: "same_shoe (snd ?r) (snd (fold ?f [10..<14] ?r))"
    by (rule split_aces_tens_same_shoe)
  have 3: "same_shoe st (snd (fold ?f [10..<14] ?r))"
    using 1 2 by (rule same_shoe_trans)
  have "distr_split_aces rv dt st =
          (case fold ?f [10..<14] ?r of (distr, st') \<Rightarrow>
             store (get_state_hash st 11 1 dt 0) (double_variable distr, st'))"
    unfolding distr_split_aces_def Let_def None option.case
    by (cases ?r) simp
  then show ?thesis
    using same_shoe_store_after[OF 3] by simp
next
  case (Some d)
  then show ?thesis by (simp add: distr_split_aces_def same_shoe_refl)
qed

lemma distr_split_same_shoe: "same_shoe st (snd (distr_split rv pt pa dt st))"
  by (simp add: distr_split_def distr_split_aces_same_shoe distr_split_tens_same_shoe
        distr_split_general_same_shoe)

subsection \<open>The bettor leaves the caller's shoe as it found it\<close>

lemma list_take2_put2:
  fixes xs :: "int list"
  shows "(let a = xs[c1 := xs ! c1 - 1];
              b = a[c2 := a ! c2 - 1];
              c = b[c1 := b ! c1 + 1]
          in c[c2 := c ! c2 + 1]) = xs"
  unfolding Let_def
  by (cases "c1 < length xs"; cases "c2 < length xs"; cases "c1 = c2")
     (auto simp: list_update_beyond nth_list_update intro!: nth_equalityI)

lemma get_probability_shoe: "snd (get_probability distr card1 card2 card3) = distr"
  using list_take2_put2[of distr card1 card2]
  by (simp add: get_probability_def Let_def)

lemma get_distr_step_shoe:
  "fst (snd (get_distr_step rv player_first player_second dealer_shown acc)) = fst (snd acc)"
proof -
  obtain distr shoe rd where acc: "acc = (distr, shoe, rd)" by (cases acc)
  obtain p where p: "get_probability shoe player_first player_second dealer_shown = (p, shoe)"
    using get_probability_shoe[of shoe player_first player_second dealer_shown]
    by (cases "get_probability shoe player_first player_second dealer_shown") simp
  show ?thesis
    by (simp add: get_distr_step_def acc p Let_def split_beta)
qed

lemma fold_keeps_shoe:
  assumes "\<And>x acc. fst (snd (f x acc)) = fst (snd acc)"
  shows "fst (snd (fold f xs acc)) = fst (snd acc)"
  by (induction xs arbitrary: acc) (simp_all add: assms)

lemma get_distr_shoe: "fst (snd (get_distr rv rd card_distribution)) = card_distribution"
proof -
  let ?loop = "fold (\<lambda>player_first.
              fold (\<lambda>player_second.
                 fold (\<lambda>dealer_shown. get_distr_step rv player_first player_second dealer_shown)
                   [1..<14])
                [1..<14])
             [1..<14] (replicate 17 0, card_distribution, rd)"
  have "fst (snd ?loop) = fst (snd (replicate 17 (0::real), card_distribution, rd))"
    by (intro fold_keeps_shoe get_distr_step_shoe)
  then show ?thesis
    by (simp add: get_distr_def Let_def split_beta)
qed

text \<open>
  C3. Every public method of the solver returns with the shoe it was called with:
  each transient decrement has been undone. \<^verbatim>\<open>KellyBettor.get_distr\<close> returns with
  the caller's shoe as it was passed in.
\<close>

theorem shoe_conservation:
  "card_distr (snd (distr_hit rv pt pa dt st)) = card_distr st \<and>
   card_distr (snd (distr_stand rv pt da dt fc st)) = card_distr st \<and>
   card_distr (snd (distr_double rv pt pa dt st)) = card_distr st \<and>
   card_distr (snd (distr_split_general rv player_card dt st)) = card_distr st \<and>
   card_distr (snd (distr_split_tens rv dt st)) = card_distr st \<and>
   card_distr (snd (distr_split_aces rv dt st)) = card_distr st \<and>
   card_distr (snd (distr_split rv pt pa dt st)) = card_distr st \<and>
   card_distr (snd (distr_hit_stand rv pt pa dt st)) = card_distr st \<and>
   card_distr (snd (distr_hit_stand_double rv pt pa dt st)) = card_distr st \<and>
   card_distr (snd (distr_blackjack dt st)) = card_distr st \<and>
   fst (snd (get_distr rv rd card_distribution)) = card_distribution"
  using distr_hit_same_shoe[of st rv pt pa dt] distr_stand_same_shoe[of st rv pt da dt fc]
    distr_double_same_shoe[of st rv pt pa dt]
    distr_split_general_same_shoe[of st rv player_card dt]
    distr_split_tens_same_shoe[of st rv dt] distr_split_aces_same_shoe[of st rv dt]
    distr_split_same_shoe[of st rv pt pa dt] distr_hit_stand_same_shoe[of st rv pt pa dt]
    distr_hit_stand_double_same_shoe[of st rv pt pa dt] distr_blackjack_same_shoe[of st dt]
    get_distr_shoe[of rv rd card_distribution]
  by (simp add: same_shoe_def)

lemma upt_1_14: "[Suc 0..<14] = [1, 2, 3, 4, 5, 6, 7, 8, 9, 10, 11, 12, 13]"
  by (simp add: upt_rec)

lemma upt_0_17: "[0..<17] = [0, 1, 2, 3, 4, 5, 6, 7, 8, 9, 10, 11, 12, 13, 14, 15, 16]"
  by (simp add: upt_rec)

lemma fold_cards_sum:
  "fold (\<lambda>i cards_left. cards_left + f i) [1..<14] (0::real) = (\<Sum>i = 1..13. f i)"
proof -
  have "fold (\<lambda>i cards_left. cards_left + f i) xs a = a + sum_list (map f xs)" for xs a
    by (induction xs arbitrary: a) simp_all
  then have "fold (\<lambda>i cards_left. cards_left + f i) [1..<14] (0::real) = sum_list (map f [1..<14])"
    by simp
  also have "\<dots> = sum f (set [1..<14])"
    by (rule sum_list_distinct_conv_sum_set) simp
  also have "set [1..<14] = {1..13::nat}" by auto
  finally show ?thesis .
qed

text \<open>
  C1. The claim: a configuration with \<^verbatim>\<open>BLACKJACK_PAYOUT\<close> other than 1.5, or
  \<^verbatim>\<open>SHOE_SIZE\<close> at least 25, or \<^verbatim>\<open>DEALER_PEEKS\<close> false makes the construction of
  the solver fail. The source only prints: with all three settings out of range
  the constructor prints its three messages and returns the solver.
\<close>

theorem cinit_out_of_range_constructs:
  "cinit \<lparr>HIT_SOFT_17 = True, DEALER_PEEKS = False, DOUBLE_AFTER_SPLIT = True,
          HIT_AFTER_SPLIT_ACES = False, BLACKJACK_WITH_SPLIT_ACES = False, SPLIT_UNEVEN = False,
          BLACKJACK_PAYOUT = 2, SHOE_SIZE = 30\<rparr> utility_function =
     ([''blackjakc_payout_exception'', ''shoe_size_exception'', ''dealer_peeks_exception''],
      Some \<lparr>utility = map (\<lambda>i. utility_function ((real i - 8) / 2)) [0..<17],
            card_distr = replicate 14 0, precomp_distr = Map.empty\<rparr>)"
  by (simp add: cinit_def)

lemma cinit_never_fails: "snd (cinit rv utility_function) \<noteq> None"
  by (simp add: cinit_def Let_def)

text \<open>
  C10. Called with a player total above 21, \<^verbatim>\<open>distr_stand\<close> returns the constant
  LOSE distribution at once, whatever the dealer's hand, the flag, the shoe, the
  cache and the rules; the solver is left untouched.
\<close>

theorem distr_stand_player_bust:
  "21 < player_total \<Longrightarrow>
   distr_stand rv player_total dealer_aces dealer_total first_call st = (CONSTANT_LOSE, st)"
  by (rule distr_stand_bust)

theorem distr_stand_player_bust_witness:
  "(21::int) < 22 \<and>
   distr_stand example_rules 22 0 10 True (example_solver (replicate 14 4)) =
     (CONSTANT_LOSE, example_solver (replicate 14 4))"
  using distr_stand_player_bust[of 22 example_rules 0 10 True "example_solver (replicate 14 4)"]
  by simp

text \<open>
  C9. \<^verbatim>\<open>double_distr\<close>: for every \<open>i\<close> in \<open>4..12\<close> the new bucket \<open>2i - 8\<close> holds the
  old bucket \<open>i\<close>; every bucket of the result that is not of this form is zero; the
  result has 17 buckets.
\<close>

lemma double_distr_list:
  "double_distr distr =
     [distr ! 4, 0, distr ! 5, 0, distr ! 6, 0, distr ! 7, 0, distr ! 8, 0, distr ! 9, 0,
      distr ! 10, 0, distr ! 11, 0, distr ! 12]"
  by (simp add: double_distr_def upt_rec numeral_eq_Suc)

theorem double_distr_buckets:
  "(\<forall>i\<in>{4..12}. double_distr distr ! (2 * i - 8) = distr ! i) \<and>
   (\<forall>k<17. (\<forall>i\<in>{4..12}. k \<noteq> 2 * i - 8) \<longrightarrow> double_distr distr ! k = 0) \<and>
   length (double_distr distr) = 17"
proof (intro conjI ballI allI impI)
  fix i :: nat assume "i \<in> {4..12}"
  then have "i = 4 \<or> i = 5 \<or> i = 6 \<or> i = 7 \<or> i = 8 \<or> i = 9 \<or> i = 10 \<or> i = 11 \<or> i = 12"
    by auto
  then show "double_distr distr ! (2 * i - 8) = distr ! i"
    by (auto simp: double_distr_list)
next
  fix k :: nat assume k: "k < 17" and odd: "\<forall>i\<in>{4..12}. k \<noteq> 2 * i - 8"
  have "k \<noteq> 0" using odd[rule_format, of 4] by simp
  moreover have "k \<noteq> 2" using odd[rule_format, of 5] by simp
  moreover have "k \<noteq> 4" using odd[rule_format, of 6] by simp
  moreover have "k \<noteq> 6" using odd[rule_format, of 7] by simp
  moreover have "k \<noteq> 8" using odd[rule_format, of 8] by simp
  moreover have "k \<noteq> 10" using odd[rule_format, of 9] by simp
  moreover have "k \<noteq> 12" using odd[rule_format, of 10] by simp
  moreover have "k \<noteq> 14" using odd[rule_format, of 11] by simp
  moreover have "k \<noteq> 16" using odd[rule_format, of 12] by simp
  ultimately have "k = 1 \<or> k = 3 \<or> k = 5 \<or> k = 7 \<or> k = 9 \<or> k = 11 \<or> k = 13 \<or> k = 15"
    using k by arith
  then show "double_distr distr ! k = 0"
    by (auto simp: double_distr_list)
next
  show "length (double_distr distr) = 17" by (simp add: double_distr_list)
qed

theorem double_distr_buckets_witness:
  "(5::nat) \<in> {4..12} \<and>
   double_distr [0, 0, 0, 0, 1/8, 1/4, 0, 1/8, 0, 0, 1/2, 0, 0, 0, 0, 0, 0] ! (2 * 5 - 8) = 1/4 \<and>
   (3::nat) < 17 \<and>
   double_distr [0, 0, 0, 0, 1/8, 1/4, 0, 1/8, 0, 0, 1/2, 0, 0, 0, 0, 0, 0] ! 3 = 0"
proof -
  let ?d = "[0, 0, 0, 0, 1/8, 1/4, 0, 1/8, 0, 0, 1/2, 0, 0, 0, 0, 0, 0] :: real list"
  have odd: "\<forall>i\<in>{4..12}. (3::nat) \<noteq> 2 * i - 8"
  proof (intro ballI)
    fix i :: nat
    show "(3::nat) \<noteq> 2 * i - 8" by arith
  qed
  have a: "\<forall>i\<in>{4..12}. double_distr ?d ! (2 * i - 8) = ?d ! i"
    and b: "\<forall>k<17. (\<forall>i\<in>{4..12}. k \<noteq> 2 * i - 8) \<longrightarrow> double_distr ?d ! k = 0"
    using double_distr_buckets[of ?d] by blast+
  have "double_distr ?d ! (2 * 5 - 8) = ?d ! 5"
    using a by (rule bspec) simp
  moreover have "double_distr ?d ! 3 = 0"
    using b[THEN spec, of 3] odd by simp
  ultimately show ?thesis by simp
qed

text \<open>
  C8. \<^verbatim>\<open>double_variable\<close> is the self-convolution clamped to the 17 buckets: bucket
  \<open>k\<close> of the result is the sum of \<open>d[i] * d[j]\<close> over all \<open>i, j\<close> in \<open>0..16\<close> with
  \<open>i + j - 8 = k\<close>, and the result has no other bucket.
\<close>

lemma double_variable_inner:
  assumes "length tmp = 17" and "k < 17"
  shows "length (fold (\<lambda>j tmp. if i + j < 25 \<and> i + j \<ge> 8
                         then tmp[i + j - 8 := tmp ! (i + j - 8) + distr ! i * distr ! j]
                         else tmp) js tmp) = 17 \<and>
         fold (\<lambda>j tmp. if i + j < 25 \<and> i + j \<ge> 8
                         then tmp[i + j - 8 := tmp ! (i + j - 8) + distr ! i * distr ! j]
                         else tmp) js tmp ! k =
           tmp ! k + (\<Sum>j\<leftarrow>js. if i + j = k + 8 then distr ! i * distr ! j else 0)"
  using assms
proof (induction js arbitrary: tmp)
  case Nil
  then show ?case by simp
next
  case (Cons j js)
  let ?t = "if i + j < 25 \<and> i + j \<ge> 8
            then tmp[i + j - 8 := tmp ! (i + j - 8) + distr ! i * distr ! j] else tmp"
  have len: "length ?t = 17" using Cons.prems by simp
  have k: "?t ! k = tmp ! k + (if i + j = k + 8 then distr ! i * distr ! j else 0)"
    using Cons.prems by (auto simp: nth_list_update)
  show ?case
    using Cons.IH[OF len Cons.prems(2)] k by (simp add: algebra_simps)
qed

lemma double_variable_outer:
  assumes "length tmp = 17" and "k < 17"
  shows "length (fold (\<lambda>i tmp.
            fold (\<lambda>j tmp. if i + j < 25 \<and> i + j \<ge> 8
                           then tmp[i + j - 8 := tmp ! (i + j - 8) + distr ! i * distr ! j]
                           else tmp) js tmp) is tmp) = 17 \<and>
         fold (\<lambda>i tmp.
            fold (\<lambda>j tmp. if i + j < 25 \<and> i + j \<ge> 8
                           then tmp[i + j - 8 := tmp ! (i + j - 8) + distr ! i * distr ! j]
                           else tmp) js tmp) is tmp ! k =
           tmp ! k + (\<Sum>i\<leftarrow>is. \<Sum>j\<leftarrow>js. if i + j = k + 8 then distr ! i * distr ! j else 0)"
  using assms
proof (induction "is" arbitrary: tmp)
  case Nil
  then show ?case by simp
next
  case (Cons i "is")
  let ?t = "fold (\<lambda>j tmp. if i + j < 25 \<and> i + j \<ge> 8
                           then tmp[i + j - 8 := tmp ! (i + j - 8) + distr ! i * distr ! j]
                           else tmp) js tmp"
  have inner: "length ?t = 17 \<and>
     ?t ! k = tmp ! k + (\<Sum>j\<leftarrow>js. if i + j = k + 8 then distr ! i * distr ! j else 0)"
    by (rule double_variable_inner[OF Cons.prems])
  show ?case
    using Cons.IH[of ?t] inner Cons.prems(2) by (simp add: algebra_simps)
qed

lemma sum_list_upt_17: "(\<Sum>i\<leftarrow>[0..<17]. f i) = (\<Sum>i<17. (f i :: real))"
proof -
  have "(\<Sum>i\<leftarrow>[0..<17]. f i) = sum f (set [0..<17])"
    by (rule sum_list_distinct_conv_sum_set) simp
  also have "set [0..<17] = {..<17::nat}" by auto
  finally show ?thesis .
qed

theorem double_variable_convolution:
  "length (double_variable distr) = 17 \<and>
   (\<forall>k<17. double_variable distr ! k =
      (\<Sum>i<17. \<Sum>j<17. if i + j = k + 8 then distr ! i * distr ! j else 0))"
proof (intro conjI allI impI)
  show "length (double_variable distr) = 17"
    using double_variable_outer[of "replicate 17 0" 0 distr "[0..<17]" "[0..<17]"]
    by (simp add: double_variable_def)
next
  fix k :: nat assume k: "k < 17"
  have "double_variable distr ! k =
      replicate 17 0 ! k +
      (\<Sum>i\<leftarrow>[0..<17]. \<Sum>j\<leftarrow>[0..<17]. if i + j = k + 8 then distr ! i * distr ! j else 0)"
    using double_variable_outer[of "replicate 17 0" k distr "[0..<17]" "[0..<17]"] k
    by (simp add: double_variable_def)
  also have "replicate 17 (0::real) ! k = 0" using k by simp
  finally show "double_variable distr ! k =
      (\<Sum>i<17. \<Sum>j<17. if i + j = k + 8 then distr ! i * distr ! j else 0)"
    by (simp add: sum_list_upt_17)
qed

theorem double_variable_convolution_witness:
  "(9::nat) < 17 \<and>
   double_variable [0, 0, 0, 0, 0, 0, 1/2, 0, 1/4, 0, 1/4, 0, 0, 0, 0, 0, 0] ! 9 =
     (\<Sum>i<17. \<Sum>j<17. if i + j = 9 + 8
        then [0, 0, 0, 0, 0, 0, 1/2, 0, 1/4, 0, 1/4, 0, 0, 0, 0, 0, 0] ! i *
             [0, 0, 0, 0, 0, 0, 1/2, 0, 1/4, 0, 1/4, 0, 0, 0, 0, 0, 0] ! j
        else (0::real))"
  using double_variable_convolution[of "[0, 0, 0, 0, 0, 0, 1/2, 0, 1/4, 0, 1/4, 0, 0, 0, 0, 0, 0]"]
  by simp

lemma card_probability_sum:
  "card_probability st crd banned_value =
     valid_card_distr st banned_value crd / (\<Sum>i = 1..13. valid_card_distr st banned_value i)"
  unfolding card_probability_def Let_def fold_cards_sum by (rule refl)

lemma get_value_pos: "1 \<le> crd \<Longrightarrow> get_value crd \<noteq> 0"
  by (simp add: get_value_def)

lemma stand_banned_value_eq:
  "stand_banned_value first_call dealer_total =
     (if first_call \<and> dealer_total = 10 then 11
      else if first_call \<and> dealer_total = 11 then 10 else 0)"
  by (simp add: stand_banned_value_def)



lemma get_state_hash_packed:
  "get_state_hash st player_total aces dealer_total mode =
     word_of_int (packed_state (card_distr st) player_total aces dealer_total mode)"
  by (simp add: get_state_hash_def packed_state_def upt_1_14 wi_hom_syms algebra_simps)

lemma digit_eq:
  fixes a a' b x y :: int
  assumes "a + b * x = a' + b * y" and "0 \<le> a" "a < b" "0 \<le> a'" "a' < b"
  shows "a = a' \<and> x = y"
proof -
  have "(a + b * x) mod b = a mod b" "(a' + b * y) mod b = a' mod b"
    by simp_all
  moreover have "a mod b = a" "a' mod b = a'"
    using assms by (simp_all add: mod_pos_pos_trivial)
  ultimately have a: "a = a'" using assms(1) by simp
  have "b \<noteq> 0" using assms by auto
  with a show ?thesis using assms(1) by simp
qed

lemma horner_inj:
  assumes "length xs = length ys"
    and "\<forall>d\<in>set xs. 0 \<le> d \<and> d < (100::int)" and "\<forall>d\<in>set ys. 0 \<le> d \<and> d < (100::int)"
    and "foldr (\<lambda>d acc. d + 100 * acc) xs t = foldr (\<lambda>d acc. d + 100 * acc) ys t'"
  shows "xs = ys \<and> t = t'"
  using assms
proof (induction xs ys rule: list_induct2)
  case Nil
  then show ?case by simp
next
  case (Cons x xs y ys)
  from Cons.prems have "x + 100 * foldr (\<lambda>d acc. d + 100 * acc) xs t =
      y + 100 * foldr (\<lambda>d acc. d + 100 * acc) ys t'" by simp
  then have "x = y \<and> foldr (\<lambda>d acc. d + 100 * acc) xs t = foldr (\<lambda>d acc. d + 100 * acc) ys t'"
    using Cons.prems by (intro digit_eq) auto
  then show ?case using Cons by auto
qed

lemma horner_bounds:
  assumes "\<forall>d\<in>set xs. 0 \<le> d \<and> d < (100::int)" and "0 \<le> t"
  shows "0 \<le> foldr (\<lambda>d acc. d + 100 * acc) xs t \<and>
         foldr (\<lambda>d acc. d + 100 * acc) xs t < 100 ^ length xs * (t + 1)"
  using assms
proof (induction xs)
  case Nil
  then show ?case by simp
next
  case (Cons x xs)
  let ?r = "foldr (\<lambda>d acc. d + 100 * acc) xs t"
  have r: "0 \<le> ?r" "?r + 1 \<le> 100 ^ length xs * (t + 1)"
    using Cons by auto
  have x: "0 \<le> x" "x < 100" using Cons.prems by auto
  have "x + 100 * ?r < 100 * (?r + 1)" using x by simp
  also have "\<dots> \<le> 100 * (100 ^ length xs * (t + 1))" using r by simp
  finally show ?case using r x by simp
qed

lemma packed_state_range:
  assumes "\<forall>i\<in>{1..13}. 0 \<le> shoe ! i \<and> shoe ! i < 100"
    and "0 \<le> mode \<and> mode < 10" "0 \<le> pt \<and> pt < 100" "0 \<le> dt \<and> dt < 100"
    and "0 \<le> aces \<and> aces < 10000000"
  shows "0 \<le> packed_state shoe pt aces dt mode \<and> packed_state shoe pt aces dt mode < 2 ^ 127"
proof -
  let ?xs = "map (\<lambda>i. shoe ! i) [1..<14] @ [pt, dt]"
  have digits: "\<forall>d\<in>set ?xs. 0 \<le> d \<and> d < 100"
    using assms by auto
  have "0 \<le> foldr (\<lambda>d acc. d + 100 * acc) ?xs aces \<and>
        foldr (\<lambda>d acc. d + 100 * acc) ?xs aces < 100 ^ length ?xs * (aces + 1)"
    using digits assms(5) by (intro horner_bounds) auto
  moreover have "100 ^ length ?xs * (aces + 1) \<le> (100 ^ 15 * 10000000 :: int)"
    using assms(5) by simp
  ultimately have "0 \<le> foldr (\<lambda>d acc. d + 100 * acc) ?xs aces"
    "foldr (\<lambda>d acc. d + 100 * acc) ?xs aces < 100 ^ 15 * 10000000"
    by linarith+
  then show ?thesis
    using assms(2) unfolding packed_state_def by simp
qed

lemma packed_state_inj:
  assumes "\<forall>i\<in>{1..13}. 0 \<le> shoe ! i \<and> shoe ! i < 100"
    and "\<forall>i\<in>{1..13}. 0 \<le> shoe' ! i \<and> shoe' ! i < 100"
    and "0 \<le> mode \<and> mode < 10" "0 \<le> mode' \<and> mode' < 10"
    and "0 \<le> pt \<and> pt < 100" "0 \<le> pt' \<and> pt' < 100"
    and "0 \<le> dt \<and> dt < 100" "0 \<le> dt' \<and> dt' < 100"
    and "packed_state shoe pt aces dt mode = packed_state shoe' pt' aces' dt' mode'"
  shows "(\<forall>i\<in>{1..13}. shoe ! i = shoe' ! i) \<and> pt = pt' \<and> dt = dt' \<and> aces = aces' \<and> mode = mode'"
proof -
  let ?xs = "map (\<lambda>i. shoe ! i) [1..<14] @ [pt, dt]"
  let ?ys = "map (\<lambda>i. shoe' ! i) [1..<14] @ [pt', dt']"
  have dx: "\<forall>d\<in>set ?xs. 0 \<le> d \<and> d < 100" using assms by auto
  have dy: "\<forall>d\<in>set ?ys. 0 \<le> d \<and> d < 100" using assms by auto
  have "mode = mode' \<and>
        foldr (\<lambda>d acc. d + 100 * acc) ?xs aces = foldr (\<lambda>d acc. d + 100 * acc) ?ys aces'"
    using assms(9) assms(3,4) unfolding packed_state_def by (intro digit_eq) auto
  moreover from this have "?xs = ?ys \<and> aces = aces'"
    using dx dy by (intro horner_inj) auto
  moreover from this have "map (\<lambda>i. shoe ! i) [1..<14] = map (\<lambda>i. shoe' ! i) [1..<14]"
    by simp
  then have "\<forall>i\<in>set [1..<14]. shoe ! i = shoe' ! i"
    by (simp only: map_eq_conv)
  then have "\<forall>i\<in>{1..13}. shoe ! i = shoe' ! i" by auto
  ultimately show ?thesis by simp
qed

text \<open>
  C6. \<^verbatim>\<open>get_state_hash\<close> is injective on the states a hand can be in: every count
  in \<open>0..99\<close>, mode in \<open>0..5\<close>, player total in \<open>0..31\<close>, dealer total in \<open>2..11\<close> and
  a count of soft aces in \<open>0..9999999\<close>. The packed number then stays below \<open>2^127\<close>,
  so the 128-bit arithmetic does not overflow, and two such states with the same
  hash agree on the counts of the cards \<open>1..13\<close>, on both totals, on the ace count
  and on the mode.
\<close>

theorem get_state_hash_injective:
  assumes "\<forall>i\<in>{1..13}. 0 \<le> card_distr st ! i \<and> card_distr st ! i < 100"
    and "\<forall>i\<in>{1..13}. 0 \<le> card_distr st' ! i \<and> card_distr st' ! i < 100"
    and "0 \<le> mode \<and> mode \<le> 5" "0 \<le> mode' \<and> mode' \<le> 5"
    and "0 \<le> player_total \<and> player_total \<le> 31" "0 \<le> player_total' \<and> player_total' \<le> 31"
    and "2 \<le> dealer_total \<and> dealer_total \<le> 11" "2 \<le> dealer_total' \<and> dealer_total' \<le> 11"
    and "0 \<le> aces \<and> aces < 10000000" "0 \<le> aces' \<and> aces' < 10000000"
    and "get_state_hash st player_total aces dealer_total mode =
         get_state_hash st' player_total' aces' dealer_total' mode'"
  shows "(\<forall>i\<in>{1..13}. card_distr st ! i = card_distr st' ! i) \<and>
         player_total = player_total' \<and> dealer_total = dealer_total' \<and>
         aces = aces' \<and> mode = mode'"
proof -
  let ?e = "packed_state (card_distr st) player_total aces dealer_total mode"
  let ?e' = "packed_state (card_distr st') player_total' aces' dealer_total' mode'"
  have r: "0 \<le> ?e \<and> ?e < 2 ^ 127"
    using assms by (intro packed_state_range) auto
  have r': "0 \<le> ?e' \<and> ?e' < 2 ^ 127"
    using assms by (intro packed_state_range) auto
  have "(word_of_int ?e :: 128 word) = word_of_int ?e'"
    using assms(11) by (simp add: get_state_hash_packed)
  moreover have "0 \<le> ?e \<and> ?e < 2 ^ LENGTH(128)" "0 \<le> ?e' \<and> ?e' < 2 ^ LENGTH(128)"
    using r r' by simp_all
  ultimately have "?e = ?e'"
    by (simp only: word_of_int_inj)
  then show ?thesis
    using assms by (intro packed_state_inj) auto
qed

theorem get_state_hash_injective_witness:
  "get_state_hash (example_solver [0, 4, 4, 4, 4, 4, 4, 4, 4, 4, 4, 4, 4, 3]) 12 1 10 2 =
   get_state_hash (example_solver [9, 4, 4, 4, 4, 4, 4, 4, 4, 4, 4, 4, 4, 3]) 12 1 10 2 \<and>
   card_distr (example_solver [0, 4, 4, 4, 4, 4, 4, 4, 4, 4, 4, 4, 4, 3]) ! 13 =
   card_distr (example_solver [9, 4, 4, 4, 4, 4, 4, 4, 4, 4, 4, 4, 4, 3]) ! 13"
proof -
  let ?s = "example_solver [0, 4, 4, 4, 4, 4, 4, 4, 4, 4, 4, 4, 4, 3]"
  let ?s' = "example_solver [9, 4, 4, 4, 4, 4, 4, 4, 4, 4, 4, 4, 4, 3]"
  have b: "\<forall>i\<in>{1..13}. 0 \<le> card_distr ?s ! i \<and> card_distr ?s ! i < 100"
    "\<forall>i\<in>{1..13}. 0 \<le> card_distr ?s' ! i \<and> card_distr ?s' ! i < 100"
    by (simp_all add: example_solver_def atLeastAtMost_upt upt_1_14)
  have h: "get_state_hash ?s 12 1 10 2 = get_state_hash ?s' 12 1 10 2"
    by (simp add: get_state_hash_def example_solver_def upt_1_14)
  have "(\<forall>i\<in>{1..13}. card_distr ?s ! i = card_distr ?s' ! i) \<and>
         (12::int) = 12 \<and> (10::int) = 10 \<and> (1::int) = 1 \<and> (2::int) = 2"
    using get_state_hash_injective[OF b, of 2 2 12 12 10 10 1 1] h by simp
  then have "card_distr ?s ! 13 = card_distr ?s' ! 13" by simp
  with h show ?thesis by simp
qed

subsection \<open>Sums of distributions\<close>



lemma constant_lists:
  "CONSTANT_LOSE = [0, 0, 0, 0, 0, 0, 1, 0, 0, 0, 0, 0, 0, 0, 0, 0, 0]"
  "CONSTANT_TIE = [0, 0, 0, 0, 0, 0, 0, 0, 1, 0, 0, 0, 0, 0, 0, 0, 0]"
  "CONSTANT_WIN = [0, 0, 0, 0, 0, 0, 0, 0, 0, 0, 1, 0, 0, 0, 0, 0, 0]"
  "CONSTANT_BLACKJACK = [0, 0, 0, 0, 0, 0, 0, 0, 0, 0, 0, 1, 0, 0, 0, 0, 0]"
  by (simp_all add: CONSTANT_LOSE_def CONSTANT_WIN_def CONSTANT_TIE_def
        CONSTANT_BLACKJACK_def constant_distr_def empty_distr_def numeral_eq_Suc)


subsection \<open>Probabilities of the next card\<close>








subsection \<open>Taking a card out of the shoe\<close>




subsection \<open>Properties that depend on the shoe only\<close>

lemma same_shoe_sym: "same_shoe a b \<Longrightarrow> same_shoe b a"
  by (simp add: same_shoe_def)










subsection \<open>One draw, and the loop over the cards\<close>




subsection \<open>How many cards a hand can still take\<close>







subsection \<open>The drawing methods return probability distributions\<close>






lemma replicate_17: "replicate 17 (0::real) = [0, 0, 0, 0, 0, 0, 0, 0, 0, 0, 0, 0, 0, 0, 0, 0, 0]"
  by (simp add: numeral_eq_Suc)



subsection \<open>The choice between two distributions\<close>

text \<open>
  A run of the solver on a small shoe, one call at a time: each lemma gives the
  distribution a call returns and the cache it leaves.
\<close>

lemma example_solver_cached: "example_solver shoe = cached_solver shoe []"
  by (simp add: example_solver_def cached_solver_def)

lemma cached_solver_simps:
  "card_distr (cached_solver shoe es) = shoe"
  "precomp_distr (cached_solver shoe es) = map_of es"
  "take_card c (cached_solver shoe es) = cached_solver (shoe[c := shoe ! c - 1]) es"
  "put_card c (cached_solver shoe es) = cached_solver (shoe[c := shoe ! c + 1]) es"
  "store k (d, cached_solver shoe es) = (d, cached_solver shoe ((k, d) # es))"
  "distribution_value (cached_solver shoe es) [a0, a1, a2, a3, a4, a5, a6, a7, a8, a9, a10, a11,
      a12, a13, a14, a15, a16] =
     - 4 * a0 - 7 / 2 * a1 - 3 * a2 - 5 / 2 * a3 - 2 * a4 - 3 / 2 * a5 - a6 - 1 / 2 * a7 +
     1 / 2 * a9 + a10 + 3 / 2 * a11 + 2 * a12 + 5 / 2 * a13 + 3 * a14 + 7 / 2 * a15 + 4 * a16"
  by (simp_all add: cached_solver_def take_card_def put_card_def store_def distribution_value_def
        upt_0_17)

lemmas node_eval =
  cached_solver_simps draw_def card_probability_def valid_card_distr_def get_value_def is_ace_def
  get_state_hash_def add_def empty_distr_def replicate_17 constant_lists
  stand_banned_value_def Let_def upt_1_14 upt_0_17

lemma hs_bust: "21 < pt \<Longrightarrow> distr_hit_stand rv pt 0 dt st = (CONSTANT_LOSE, st)"
  by (simp add: distr_hit_stand.simps distr_hit_bust distr_stand_bust)

lemma hit19:
  assumes "map_of es 919000000000001000000000000002 = None"
  shows "distr_hit example_rules 19 0 9 (cached_solver [0, 0, 0, 0, 0, 0, 0, 0, 1, 0, 0, 0, 0, 0] es) =
    (CONSTANT_LOSE, cached_solver [0, 0, 0, 0, 0, 0, 0, 0, 1, 0, 0, 0, 0, 0]
       ((919000000000001000000000000002, CONSTANT_LOSE) # es))"
  apply (subst distr_hit_miss)
    apply (simp_all add: node_eval hs_bust assms)
  done

lemma stand_compare_win:
  "\<not> 21 < pt \<Longrightarrow> \<not> 21 < dt \<Longrightarrow> 17 < dt \<or> dt = 17 \<and> da = 0 \<Longrightarrow> dt < pt \<Longrightarrow>
   distr_stand rv pt da dt fc st = (CONSTANT_WIN, st)"
  by (subst distr_stand_compare) auto

lemma stand_compare_lose:
  "\<not> 21 < pt \<Longrightarrow> \<not> 21 < dt \<Longrightarrow> 17 < dt \<or> dt = 17 \<and> da = 0 \<Longrightarrow> pt < dt \<Longrightarrow>
   distr_stand rv pt da dt fc st = (CONSTANT_LOSE, st)"
  by (subst distr_stand_compare) auto

lemma stand19:
  assumes "map_of es 919000000000001000000000000003 = None"
  shows "distr_stand example_rules 19 0 9 True
           (cached_solver [0, 0, 0, 0, 0, 0, 0, 0, 1, 0, 0, 0, 0, 0] es) =
    (CONSTANT_WIN, cached_solver [0, 0, 0, 0, 0, 0, 0, 0, 1, 0, 0, 0, 0, 0]
       ((919000000000001000000000000003, CONSTANT_WIN) # es))"
  apply (subst distr_stand_miss)
      apply (simp_all add: node_eval stand_compare_win assms)
  done

lemma stand19_cached:
  assumes "map_of es 919000000000001000000000000003 = Some d"
  shows "distr_stand example_rules 19 0 9 True
           (cached_solver [0, 0, 0, 0, 0, 0, 0, 0, 1, 0, 0, 0, 0, 0] es) =
    (d, cached_solver [0, 0, 0, 0, 0, 0, 0, 0, 1, 0, 0, 0, 0, 0] es)"
  apply (subst distr_stand_cached[where d = d])
      apply (simp_all add: node_eval assms)
  done

lemma hs19:
  assumes "map_of es 919000000000001000000000000002 = None"
    and "map_of es 919000000000001000000000000003 = None"
  shows "distr_hit_stand example_rules 29 1 9
           (cached_solver [0, 0, 0, 0, 0, 0, 0, 0, 1, 0, 0, 0, 0, 0] es) =
    (CONSTANT_WIN, cached_solver [0, 0, 0, 0, 0, 0, 0, 0, 1, 0, 0, 0, 0, 0]
       ((919000000000001000000000000003, CONSTANT_WIN) #
        (919000000000001000000000000002, CONSTANT_LOSE) # es))"
  apply (subst distr_hit_stand.simps)
  apply (simp add: hit19 stand19 assms is_ace_def cached_solver_simps constant_lists)
  done

lemma hit18:
  assumes "map_of es 919000000000001000000000000002 = None"
    and "map_of es 919000000000001000000000000003 = None"
    and "map_of es 918000000000001000000000000012 = None"
  shows "distr_hit example_rules 18 0 9 (cached_solver [0, 1, 0, 0, 0, 0, 0, 0, 1, 0, 0, 0, 0, 0] es) =
    ([0, 0, 0, 0, 0, 0, 1 / 2, 0, 0, 0, 1 / 2, 0, 0, 0, 0, 0, 0],
     cached_solver [0, 1, 0, 0, 0, 0, 0, 0, 1, 0, 0, 0, 0, 0]
       ((918000000000001000000000000012, [0, 0, 0, 0, 0, 0, 1 / 2, 0, 0, 0, 1 / 2, 0, 0, 0, 0, 0, 0]) #
        (919000000000001000000000000003, CONSTANT_WIN) #
        (919000000000001000000000000002, CONSTANT_LOSE) # es))"
  apply (subst distr_hit_miss)
    apply (simp_all add: node_eval hs_bust hs19 assms)
  done

lemma stand18:
  assumes "map_of es 918000000000001000000000000013 = None"
  shows "distr_stand example_rules 18 0 9 True
           (cached_solver [0, 1, 0, 0, 0, 0, 0, 0, 1, 0, 0, 0, 0, 0] es) =
    ([0, 0, 0, 0, 0, 0, 1 / 2, 0, 0, 0, 1 / 2, 0, 0, 0, 0, 0, 0],
     cached_solver [0, 1, 0, 0, 0, 0, 0, 0, 1, 0, 0, 0, 0, 0]
       ((918000000000001000000000000013, [0, 0, 0, 0, 0, 0, 1 / 2, 0, 0, 0, 1 / 2, 0, 0, 0, 0, 0, 0]) # es))"
  apply (subst distr_stand_miss)
      apply (simp_all add: node_eval stand_compare_win stand_compare_lose assms)
  done

lemma hs18:
  "distr_hit_stand example_rules 18 0 9
           (cached_solver [0, 1, 0, 0, 0, 0, 0, 0, 1, 0, 0, 0, 0, 0] []) =
    ([0, 0, 0, 0, 0, 0, 1 / 2, 0, 0, 0, 1 / 2, 0, 0, 0, 0, 0, 0],
     cached_solver [0, 1, 0, 0, 0, 0, 0, 0, 1, 0, 0, 0, 0, 0]
       [(918000000000001000000000000013, [0, 0, 0, 0, 0, 0, 1 / 2, 0, 0, 0, 1 / 2, 0, 0, 0, 0, 0, 0]),
        (918000000000001000000000000012, [0, 0, 0, 0, 0, 0, 1 / 2, 0, 0, 0, 1 / 2, 0, 0, 0, 0, 0, 0]),
        (919000000000001000000000000003, CONSTANT_WIN),
        (919000000000001000000000000002, CONSTANT_LOSE)])"
  apply (subst distr_hit_stand.simps)
  apply (simp add: hit18 stand18 is_ace_def cached_solver_simps)
  done

lemma double18:
  "distr_double example_rules 18 0 9
     (cached_solver [0, 1, 0, 0, 0, 0, 0, 0, 1, 0, 0, 0, 0, 0]
       [(918000000000001000000000000013, [0, 0, 0, 0, 0, 0, 1 / 2, 0, 0, 0, 1 / 2, 0, 0, 0, 0, 0, 0]),
        (918000000000001000000000000012, [0, 0, 0, 0, 0, 0, 1 / 2, 0, 0, 0, 1 / 2, 0, 0, 0, 0, 0, 0]),
        (919000000000001000000000000003, CONSTANT_WIN),
        (919000000000001000000000000002, CONSTANT_LOSE)]) =
    ([0, 0, 0, 0, 1 / 2, 0, 0, 0, 0, 0, 0, 0, 1 / 2, 0, 0, 0, 0],
     cached_solver [0, 1, 0, 0, 0, 0, 0, 0, 1, 0, 0, 0, 0, 0]
       [(918000000000001000000000000011, [0, 0, 0, 0, 1 / 2, 0, 0, 0, 0, 0, 0, 0, 1 / 2, 0, 0, 0, 0]),
        (918000000000001000000000000013, [0, 0, 0, 0, 0, 0, 1 / 2, 0, 0, 0, 1 / 2, 0, 0, 0, 0, 0, 0]),
        (918000000000001000000000000012, [0, 0, 0, 0, 0, 0, 1 / 2, 0, 0, 0, 1 / 2, 0, 0, 0, 0, 0, 0]),
        (919000000000001000000000000003, CONSTANT_WIN),
        (919000000000001000000000000002, CONSTANT_LOSE)])"
  unfolding distr_double_def
  apply (simp add: node_eval stand19_cached distr_stand_bust double_distr_list)
  done

lemma hsd18:
  "distr_hit_stand_double example_rules 18 0 9
           (cached_solver [0, 1, 0, 0, 0, 0, 0, 0, 1, 0, 0, 0, 0, 0] []) =
    ([0, 0, 0, 0, 1 / 2, 0, 0, 0, 0, 0, 0, 0, 1 / 2, 0, 0, 0, 0],
     cached_solver [0, 1, 0, 0, 0, 0, 0, 0, 1, 0, 0, 0, 0, 0]
       [(918000000000001000000000000011, [0, 0, 0, 0, 1 / 2, 0, 0, 0, 0, 0, 0, 0, 1 / 2, 0, 0, 0, 0]),
        (918000000000001000000000000013, [0, 0, 0, 0, 0, 0, 1 / 2, 0, 0, 0, 1 / 2, 0, 0, 0, 0, 0, 0]),
        (918000000000001000000000000012, [0, 0, 0, 0, 0, 0, 1 / 2, 0, 0, 0, 1 / 2, 0, 0, 0, 0, 0, 0]),
        (919000000000001000000000000003, CONSTANT_WIN),
        (919000000000001000000000000002, CONSTANT_LOSE)])"
  by (simp add: distr_hit_stand_double_def hs18 double18 cached_solver_simps)

text \<open>
  C2, as stated, fails for the choice between hit-stand and double. With the identity
  utility and a shoe of one ace and one eight, a hard 18 against a dealer 9 has a
  hit-or-stand distribution of half a lost and half a won bet, and a double
  distribution of half a lost and half a won doubled bet: both have value 0. On this
  tie \<^verbatim>\<open>distr_hit_stand_double\<close> returns the double distribution, the second operand
  of its comparison, not the hit-stand one.
\<close>

theorem distr_hit_stand_double_tie_keeps_double:
  "fst (distr_hit_stand example_rules 18 0 9
          (example_solver [0, 1, 0, 0, 0, 0, 0, 0, 1, 0, 0, 0, 0, 0])) =
     [0, 0, 0, 0, 0, 0, 1 / 2, 0, 0, 0, 1 / 2, 0, 0, 0, 0, 0, 0] \<and>
   fst (distr_double example_rules 18 0 9
          (snd (distr_hit_stand example_rules 18 0 9
                  (example_solver [0, 1, 0, 0, 0, 0, 0, 0, 1, 0, 0, 0, 0, 0])))) =
     [0, 0, 0, 0, 1 / 2, 0, 0, 0, 0, 0, 0, 0, 1 / 2, 0, 0, 0, 0] \<and>
   distribution_value (example_solver [0, 1, 0, 0, 0, 0, 0, 0, 1, 0, 0, 0, 0, 0])
     [0, 0, 0, 0, 0, 0, 1 / 2, 0, 0, 0, 1 / 2, 0, 0, 0, 0, 0, 0] = 0 \<and>
   distribution_value (example_solver [0, 1, 0, 0, 0, 0, 0, 0, 1, 0, 0, 0, 0, 0])
     [0, 0, 0, 0, 1 / 2, 0, 0, 0, 0, 0, 0, 0, 1 / 2, 0, 0, 0, 0] = 0 \<and>
   fst (distr_hit_stand_double example_rules 18 0 9
          (example_solver [0, 1, 0, 0, 0, 0, 0, 0, 1, 0, 0, 0, 0, 0])) =
     [0, 0, 0, 0, 1 / 2, 0, 0, 0, 0, 0, 0, 0, 1 / 2, 0, 0, 0, 0]"
  by (simp add: example_solver_cached hs18 double18 hsd18 cached_solver_simps)

text \<open>
  C2, amended: each of the two choices returns the distribution with the strictly
  larger dot product against the utility table. On a tie \<^verbatim>\<open>distr_hit_stand\<close> keeps
  the stand distribution and \<^verbatim>\<open>distr_hit_stand_double\<close> keeps the double
  distribution: in both it is the second operand of the source's comparison
  \<^verbatim>\<open>a if value(a) > value(b) else b\<close>. The hit distribution is computed first and the
  stand distribution on the cache that the hit leaves, likewise hit-stand before
  double; the utility table is the same throughout. When the hand, after one soft
  ace is demoted, totals 21, \<^verbatim>\<open>distr_hit_stand_double\<close> compares nothing and returns
  the blackjack distribution.
\<close>

theorem choice_keeps_larger_value:
  "(let (pt', pa') = demoted_hand pt pa;
        (hit, st1) = distr_hit rv pt' pa' dt st;
        (stand, st2) = distr_stand rv pt' (is_ace dt) dt True st1;
        r = fst (distr_hit_stand rv pt pa dt st)
    in (distribution_value st stand < distribution_value st hit \<longrightarrow> r = hit) \<and>
       (distribution_value st hit < distribution_value st stand \<longrightarrow> r = stand) \<and>
       (distribution_value st hit = distribution_value st stand \<longrightarrow> r = stand)) \<and>
   (let (pt', pa') = demoted_hand pt pa;
        (hit_stand, st1) = distr_hit_stand rv pt' pa' dt st;
        (dbl, st2) = distr_double rv pt' pa' dt st1;
        r = fst (distr_hit_stand_double rv pt pa dt st)
    in if pt' = 21 then r = fst (distr_blackjack dt st)
       else (distribution_value st dbl < distribution_value st hit_stand \<longrightarrow> r = hit_stand) \<and>
            (distribution_value st hit_stand < distribution_value st dbl \<longrightarrow> r = dbl) \<and>
            (distribution_value st hit_stand = distribution_value st dbl \<longrightarrow> r = dbl))"
proof -
  obtain pt' pa' where n: "demoted_hand pt pa = (pt', pa')"
    by (cases "demoted_hand pt pa")
  have n': "(if 21 < pt \<and> 0 < pa then (pt - 10, pa - 1) else (pt, pa)) = (pt', pa')"
    using n by (simp add: demoted_hand_def)
  obtain hit st1 where h: "distr_hit rv pt' pa' dt st = (hit, st1)"
    by (cases "distr_hit rv pt' pa' dt st")
  obtain stand st2 where s: "distr_stand rv pt' (is_ace dt) dt True st1 = (stand, st2)"
    by (cases "distr_stand rv pt' (is_ace dt) dt True st1")
  have f1: "same_shoe st st1"
    using distr_hit_same_shoe[of st rv pt' pa' dt] by (simp add: h)
  have f2: "same_shoe st1 st2"
    using distr_stand_same_shoe[of st1 rv pt' "is_ace dt" dt True] by (simp add: s)
  have v2: "distribution_value st2 d = distribution_value st d" for d
    using distribution_value_frame[OF same_shoe_trans[OF f1 f2]] .
  have hs: "fst (distr_hit_stand rv pt pa dt st) =
              (if distribution_value st hit > distribution_value st stand then hit else stand)"
    by (subst distr_hit_stand.simps) (simp add: n' h s v2)
  obtain hit_stand st3 where a: "distr_hit_stand rv pt' pa' dt st = (hit_stand, st3)"
    by (cases "distr_hit_stand rv pt' pa' dt st")
  obtain dbl st4 where d: "distr_double rv pt' pa' dt st3 = (dbl, st4)"
    by (cases "distr_double rv pt' pa' dt st3")
  have f3: "same_shoe st st3"
    using distr_hit_stand_same_shoe[of st rv pt' pa' dt] by (simp add: a)
  have f4: "same_shoe st3 st4"
    using distr_double_same_shoe[of st3 rv pt' pa' dt] by (simp add: d)
  have v4: "distribution_value st4 d = distribution_value st d" for d
    using distribution_value_frame[OF same_shoe_trans[OF f3 f4]] .
  have hsd: "fst (distr_hit_stand_double rv pt pa dt st) =
               (if pt' = 21 then fst (distr_blackjack dt st)
                else if distribution_value st hit_stand > distribution_value st dbl
                     then hit_stand else dbl)"
    by (simp add: distr_hit_stand_double_def n' a d v4)
  show ?thesis
    by (simp add: n h s hs a d hsd)
qed

text \<open>
  The instance of the choice rule at the tie above: the hit and the stand
  distribution of the hard 18 have the same value and the stand one is returned; the
  hit-stand and the double distribution have the same value and the double one is
  returned.
\<close>

theorem choice_keeps_larger_value_witness:
  "demoted_hand 18 0 = (18, 0) \<and>
   distribution_value (example_solver [0, 1, 0, 0, 0, 0, 0, 0, 1, 0, 0, 0, 0, 0])
     (fst (distr_hit example_rules 18 0 9
             (example_solver [0, 1, 0, 0, 0, 0, 0, 0, 1, 0, 0, 0, 0, 0]))) =
   distribution_value (example_solver [0, 1, 0, 0, 0, 0, 0, 0, 1, 0, 0, 0, 0, 0])
     [0, 0, 0, 0, 0, 0, 1 / 2, 0, 0, 0, 1 / 2, 0, 0, 0, 0, 0, 0] \<and>
   fst (distr_hit_stand example_rules 18 0 9
          (example_solver [0, 1, 0, 0, 0, 0, 0, 0, 1, 0, 0, 0, 0, 0])) =
     [0, 0, 0, 0, 0, 0, 1 / 2, 0, 0, 0, 1 / 2, 0, 0, 0, 0, 0, 0] \<and>
   distribution_value (example_solver [0, 1, 0, 0, 0, 0, 0, 0, 1, 0, 0, 0, 0, 0])
     [0, 0, 0, 0, 0, 0, 1 / 2, 0, 0, 0, 1 / 2, 0, 0, 0, 0, 0, 0] =
   distribution_value (example_solver [0, 1, 0, 0, 0, 0, 0, 0, 1, 0, 0, 0, 0, 0])
     [0, 0, 0, 0, 1 / 2, 0, 0, 0, 0, 0, 0, 0, 1 / 2, 0, 0, 0, 0] \<and>
   fst (distr_hit_stand_double example_rules 18 0 9
          (example_solver [0, 1, 0, 0, 0, 0, 0, 0, 1, 0, 0, 0, 0, 0])) =
     [0, 0, 0, 0, 1 / 2, 0, 0, 0, 0, 0, 0, 0, 1 / 2, 0, 0, 0, 0]"
  using choice_keeps_larger_value[of 18 0 example_rules 9
          "example_solver [0, 1, 0, 0, 0, 0, 0, 0, 1, 0, 0, 0, 0, 0]"]
  by (simp add: demoted_hand_def example_solver_cached hit18 stand18 hs18 double18
        cached_solver_simps)

subsection \<open>The probability of a card and the banned value\<close>

lemma sum_cards_list: "(\<Sum>i = 1..13. f i) = sum_list (map f [Suc 0..<14])"
proof -
  have "sum_list (map f [Suc 0..<14]) = sum f (set [Suc 0..<14])"
    by (rule sum_list_distinct_conv_sum_set) simp
  also have "set [Suc 0..<14] = {1..13::nat}" by auto
  finally show ?thesis by simp
qed

lemma cards_left_filtered:
  "(\<Sum>i = 1..13. valid_card_distr st banned_value i) =
   (\<Sum>i \<in> {i \<in> {1..13}. get_value i \<noteq> banned_value}. real_of_int (card_distr st ! i))"
proof -
  have "(\<Sum>i = 1..13. valid_card_distr st banned_value i) =
        (\<Sum>i = 1..13. if get_value i \<noteq> banned_value then real_of_int (card_distr st ! i) else 0)"
    by (rule sum.cong) (auto simp: valid_card_distr_def)
  also have "\<dots> = (\<Sum>i \<in> {i \<in> {1..13}. get_value i \<noteq> banned_value}. real_of_int (card_distr st ! i))"
    by (rule sum.inter_filter[symmetric]) simp
  finally show ?thesis .
qed

text \<open>
  C5. Let \<open>crd\<close> be a card \<open>1..13\<close>. While the shoe holds a card (the sum of the
  counts, the divisor, is not zero), \<^verbatim>\<open>card_probability\<close> with \<open>banned_value = 0\<close> is
  the count of the card over the sum of the counts. While the shoe holds a card
  that is not banned, \<^verbatim>\<open>card_probability\<close> is zero for a card whose value is banned
  and otherwise the count of the card over the counts of the cards that are not
  banned. (At a zero divisor the source's quotient is NaN and the property says
  nothing.) Before its loop \<^verbatim>\<open>distr_stand\<close> sets the banned value to 11 exactly
  when it is the first call and the dealer shows 10, to 10 exactly when it is the
  first call and the dealer shows 11, and to 0 otherwise, and on a cache miss every
  draw of the loop uses \<^verbatim>\<open>card_probability\<close> with that value.
\<close>

theorem card_probability_banned:
  "(crd \<in> {1..13} \<and> (\<Sum>i = 1..13. real_of_int (card_distr st ! i)) \<noteq> 0 \<longrightarrow>
      card_probability st crd 0 =
        real_of_int (card_distr st ! crd) / (\<Sum>i = 1..13. real_of_int (card_distr st ! i))) \<and>
   (crd \<in> {1..13} \<and>
    (\<Sum>i \<in> {i \<in> {1..13}. get_value i \<noteq> banned_value}. real_of_int (card_distr st ! i)) \<noteq> 0 \<longrightarrow>
      card_probability st crd banned_value =
        (if get_value crd = banned_value then 0 else real_of_int (card_distr st ! crd)) /
        (\<Sum>i \<in> {i \<in> {1..13}. get_value i \<noteq> banned_value}. real_of_int (card_distr st ! i))) \<and>
   (stand_banned_value first_call dealer_total = 11 \<longleftrightarrow> first_call \<and> dealer_total = 10) \<and>
   (stand_banned_value first_call dealer_total = 10 \<longleftrightarrow> first_call \<and> dealer_total = 11) \<and>
   (stand_banned_value first_call dealer_total = 0 \<longleftrightarrow>
      \<not> (first_call \<and> (dealer_total = 10 \<or> dealer_total = 11))) \<and>
   (\<not> player_total > 21 \<and> \<not> dealer_total > 21 \<and>
    \<not> (dealer_total > 17 \<or> (dealer_total = 17 \<and> (dealer_aces = 0 \<or> \<not> HIT_SOFT_17 rv))) \<and>
    precomp_distr st (get_state_hash st player_total dealer_aces dealer_total
                        (if first_call then 3 else 4)) = None \<longrightarrow>
    distr_stand rv player_total dealer_aces dealer_total first_call st =
      store (get_state_hash st player_total dealer_aces dealer_total (if first_call then 3 else 4))
        (fold (\<lambda>crd (distr, st).
                 let p = card_probability st crd (stand_banned_value first_call dealer_total) in
                 if p > 0 then
                   (let (d, st') = distr_stand rv player_total
                                     (dealer_aces + is_ace (get_value crd))
                                     (dealer_total + get_value crd) False (take_card crd st)
                    in (add distr d p, put_card crd st'))
                 else (distr, st))
              [1..<14] (empty_distr, st)))"
proof (intro conjI impI)
  assume "crd \<in> {1..13} \<and> (\<Sum>i = 1..13. real_of_int (card_distr st ! i)) \<noteq> 0"
  then have "1 \<le> crd" by simp
  have "(\<Sum>i = 1..13. valid_card_distr st 0 i) = (\<Sum>i = 1..13. real_of_int (card_distr st ! i))"
    by (rule sum.cong) (simp_all add: valid_card_distr_def get_value_def)
  then show "card_probability st crd 0 =
        real_of_int (card_distr st ! crd) / (\<Sum>i = 1..13. real_of_int (card_distr st ! i))"
    using \<open>1 \<le> crd\<close> by (simp add: card_probability_sum valid_card_distr_def get_value_def)
next
  show "card_probability st crd banned_value =
     (if get_value crd = banned_value then 0 else real_of_int (card_distr st ! crd)) /
     (\<Sum>i \<in> {i \<in> {1..13}. get_value i \<noteq> banned_value}. real_of_int (card_distr st ! i))"
    unfolding card_probability_sum cards_left_filtered by (simp add: valid_card_distr_def)
next
  show "stand_banned_value first_call dealer_total = 11 \<longleftrightarrow> first_call \<and> dealer_total = 10"
    by (simp add: stand_banned_value_eq)
  show "stand_banned_value first_call dealer_total = 10 \<longleftrightarrow> first_call \<and> dealer_total = 11"
    by (simp add: stand_banned_value_eq)
  show "stand_banned_value first_call dealer_total = 0 \<longleftrightarrow>
      \<not> (first_call \<and> (dealer_total = 10 \<or> dealer_total = 11))"
    by (simp add: stand_banned_value_eq)
next
  assume a: "\<not> player_total > 21 \<and> \<not> dealer_total > 21 \<and>
    \<not> (dealer_total > 17 \<or> (dealer_total = 17 \<and> (dealer_aces = 0 \<or> \<not> HIT_SOFT_17 rv))) \<and>
    precomp_distr st (get_state_hash st player_total dealer_aces dealer_total
                        (if first_call then 3 else 4)) = None"
  have "draw (\<lambda>crd st. distr_stand rv player_total (dealer_aces + is_ace (get_value crd))
                                 (dealer_total + get_value crd) False st)
                   (stand_banned_value first_call dealer_total) =
        (\<lambda>crd (distr, st).
                 let p = card_probability st crd (stand_banned_value first_call dealer_total) in
                 if p > 0 then
                   (let (d, st') = distr_stand rv player_total
                                     (dealer_aces + is_ace (get_value crd))
                                     (dealer_total + get_value crd) False (take_card crd st)
                    in (add distr d p, put_card crd st'))
                 else (distr, st))"
    by (intro ext) (simp add: draw_def Let_def case_prod_beta)
  then show "distr_stand rv player_total dealer_aces dealer_total first_call st =
      store (get_state_hash st player_total dealer_aces dealer_total (if first_call then 3 else 4))
        (fold (\<lambda>crd (distr, st).
                 let p = card_probability st crd (stand_banned_value first_call dealer_total) in
                 if p > 0 then
                   (let (d, st') = distr_stand rv player_total
                                     (dealer_aces + is_ace (get_value crd))
                                     (dealer_total + get_value crd) False (take_card crd st)
                    in (add distr d p, put_card crd st'))
                 else (distr, st))
              [1..<14] (empty_distr, st))"
    using distr_stand_miss[of player_total dealer_total dealer_aces rv st first_call] a
    by simp
qed

text \<open>
  The instance on a full deck: a five has probability \<open>4/52\<close>, and \<open>4/48\<close> when the
  aces are banned, as they are for the dealer's hole card under a shown ten.
\<close>

theorem card_probability_banned_witness:
  "(5::nat) \<in> {1..13} \<and>
   (\<Sum>i = 1..13. real_of_int (card_distr (example_solver [0, 4, 4, 4, 4, 4, 4, 4, 4, 4, 4, 4, 4, 4]) ! i)) = 52 \<and>
   (\<Sum>i \<in> {i \<in> {1..13}. get_value i \<noteq> 11}.
      real_of_int (card_distr (example_solver [0, 4, 4, 4, 4, 4, 4, 4, 4, 4, 4, 4, 4, 4]) ! i)) = 48 \<and>
   card_probability (example_solver [0, 4, 4, 4, 4, 4, 4, 4, 4, 4, 4, 4, 4, 4]) 5 0 = 1 / 13 \<and>
   card_probability (example_solver [0, 4, 4, 4, 4, 4, 4, 4, 4, 4, 4, 4, 4, 4]) 5 11 = 1 / 12 \<and>
   stand_banned_value True 10 = 11 \<and>
   distr_stand example_rules 16 0 10 True (example_solver [0, 4, 4, 4, 4, 4, 4, 4, 4, 4, 4, 4, 4, 4]) =
      store (get_state_hash (example_solver [0, 4, 4, 4, 4, 4, 4, 4, 4, 4, 4, 4, 4, 4]) 16 0 10
               (if True then 3 else 4))
        (fold (\<lambda>crd (distr, st).
                 let p = card_probability st crd (stand_banned_value True 10) in
                 if p > 0 then
                   (let (d, st') = distr_stand example_rules 16 (0 + is_ace (get_value crd))
                                     (10 + get_value crd) False (take_card crd st)
                    in (add distr d p, put_card crd st'))
                 else (distr, st))
              [1..<14] (empty_distr, example_solver [0, 4, 4, 4, 4, 4, 4, 4, 4, 4, 4, 4, 4, 4]))"
proof -
  let ?st = "example_solver [0, 4, 4, 4, 4, 4, 4, 4, 4, 4, 4, 4, 4, 4]"
  have h1: "(5::nat) \<in> {1..13}" by simp
  have h2: "\<not> (16::int) > 21 \<and> \<not> (10::int) > 21 \<and>
    \<not> ((10::int) > 17 \<or> ((10::int) = 17 \<and> ((0::int) = 0 \<or> \<not> HIT_SOFT_17 example_rules))) \<and>
    precomp_distr ?st (get_state_hash ?st 16 0 10 (if True then 3 else 4)) = None"
    by (simp add: example_solver_def)
  have h3: "True \<and> (10::int) = 10" by simp
  have s0: "(\<Sum>i = 1..13. real_of_int (card_distr ?st ! i)) = 52"
    by (subst sum_cards_list) (simp add: example_solver_def upt_1_14)
  have s11: "(\<Sum>i \<in> {i \<in> {1..13}. get_value i \<noteq> 11}. real_of_int (card_distr ?st ! i)) = 48"
    unfolding cards_left_filtered[symmetric]
    by (subst sum_cards_list)
      (simp add: valid_card_distr_def get_value_def example_solver_def upt_1_14)
  have n0: "(\<Sum>i = 1..13. real_of_int (card_distr ?st ! i)) \<noteq> 0" using s0 by simp
  have n11: "(\<Sum>i \<in> {i \<in> {1..13}. get_value i \<noteq> 11}. real_of_int (card_distr ?st ! i)) \<noteq> 0"
    using s11 by simp
  have v5: "real_of_int (card_distr ?st ! 5) = 4" "get_value 5 \<noteq> 11"
    by (simp_all add: example_solver_def get_value_def)
  have t: "card_probability ?st 5 0 =
        real_of_int (card_distr ?st ! 5) / (\<Sum>i = 1..13. real_of_int (card_distr ?st ! i))"
      "card_probability ?st 5 11 =
        (if get_value 5 = 11 then 0 else real_of_int (card_distr ?st ! 5)) /
        (\<Sum>i \<in> {i \<in> {1..13}. get_value i \<noteq> 11}. real_of_int (card_distr ?st ! i))"
      "stand_banned_value True 10 = 11"
      "distr_stand example_rules 16 0 10 True ?st =
      store (get_state_hash ?st 16 0 10 (if True then 3 else 4))
        (fold (\<lambda>crd (distr, st).
                 let p = card_probability st crd (stand_banned_value True 10) in
                 if p > 0 then
                   (let (d, st') = distr_stand example_rules 16 (0 + is_ace (get_value crd))
                                     (10 + get_value crd) False (take_card crd st)
                    in (add distr d p, put_card crd st'))
                 else (distr, st))
              [1..<14] (empty_distr, ?st))"
    using card_probability_banned[of 5 ?st 11 True 10 16 0 example_rules] h1 h2 h3 n0 n11
    by blast+
  have c0: "card_probability ?st 5 0 = 1 / 13" unfolding t(1) v5 s0 by simp
  have c11: "card_probability ?st 5 11 = 1 / 12" unfolding t(2) s11 using v5 by simp
  from h1 s0 s11 c0 c11 t(3) t(4) show ?thesis by blast
qed


subsection \<open>One iteration of the bettor's loop\<close>






end
